theory Spec2Isabelle
  imports Main "HOL-Library.Word"
begin

section \<open>The AQFP view of mockturtle: data model\<close>

text \<open>
  The development embeds \<^verbatim>\<open>include/mockturtle/views/aqfp_view.hpp\<close>. A node is an index
  into the network's storage (\<^verbatim>\<open>uint64_t\<close>; the model uses \<open>nat\<close>), a signal is a
  node with a complement bit, and the counters the view returns are \<^verbatim>\<open>uint32_t\<close>.
\<close>

type_synonym node = nat

type_synonym u32 = "32 word"

record signal =
  index :: node
  complement :: bool

text \<open>
  The network \<^verbatim>\<open>Ntk\<close> the view derives from is a template parameter. The view reads it
  through \<^verbatim>\<open>size\<close>, \<^verbatim>\<open>foreach_gate\<close> and \<^verbatim>\<open>foreach_fanin\<close> only, so the network is
  a parameter of the model: its size, the gates in the order \<^verbatim>\<open>foreach_gate\<close> visits them,
  the fan-in signals of every node in port order, and the primary outputs.
\<close>

record ntk =
  size_ntk :: nat
  gates :: "node list"
  fanins :: "node \<Rightarrow> signal list"
  outputs :: "signal list"

text \<open>The nodes a node reads: the indices of its fan-in signals.\<close>

definition fanin_nodes :: "ntk \<Rightarrow> node \<Rightarrow> node list" where
  "fanin_nodes N n = map index (fanins N n)"

text \<open>
  Well-formed networks: \<^verbatim>\<open>foreach_gate\<close> visits every gate once, gates and fan-ins are
  nodes of the network. The network is a directed acyclic graph: its nodes can be ranked
  so that every gate ranks above each of the nodes it reads. The indices need not be such
  a ranking: after a substitution a gate can read a gate with a larger index.
\<close>

definition wf_ntk :: "ntk \<Rightarrow> bool" where
  "wf_ntk N \<longleftrightarrow>
     distinct (gates N)
     \<and> list_all (\<lambda>g. g < size_ntk N \<and> list_all (\<lambda>f. index f < size_ntk N) (fanins N g))
         (gates N)"

definition ranked :: "ntk \<Rightarrow> (node \<Rightarrow> nat) \<Rightarrow> bool" where
  "ranked N r \<longleftrightarrow> list_all (\<lambda>g. list_all (\<lambda>f. r f < r g) (fanin_nodes N g)) (gates N)"

text \<open>\<^verbatim>\<open>struct aqfp_view_params\<close>, with its default member initialisers.\<close>

record aqfp_view_params =
  update_on_add :: bool
  update_on_modified :: bool
  update_on_delete :: bool
  splitter_capacity :: u32
  max_splitter_levels :: u32

definition default_params :: aqfp_view_params where
  "default_params = \<lparr>update_on_add = True, update_on_modified = True,
     update_on_delete = True, splitter_capacity = 4, max_splitter_levels = 2\<rparr>"

text \<open>
  The members of \<^verbatim>\<open>aqfp_view<Ntk, Check, false>\<close>: the base network, \<^verbatim>\<open>_fanout\<close> (a
  \<^verbatim>\<open>node_map\<close> of vectors, that is a vector indexed by node), \<^verbatim>\<open>_ps\<close>, \<^verbatim>\<open>_max_fanout\<close>
  (a \<^verbatim>\<open>uint64_t\<close>, read by the \<^verbatim>\<open>Check\<close> diagnostic only), and the level table and depth
  held by \<^verbatim>\<open>_depth_view\<close>.
\<close>

record aqfp_view =
  net :: ntk
  fanout :: "node list list"
  ps :: aqfp_view_params
  max_fanout :: nat
  dv_levels :: "nat list"
  dv_depth :: nat

datatype error = Static_assert_failed | Assertion_failed

section \<open>Buffering-constraint model\<close>

text \<open>
  \<^verbatim>\<open>num_splitter_levels\<close>: the test against the capacity comes first, as in the source.
  \<^verbatim>\<open>_fanout[n].size()\<close> is a \<^verbatim>\<open>size_t\<close>, so the \<^verbatim>\<open>uint32_t\<close> capacity is widened for
  the comparison.
\<close>

definition num_splitter_levels :: "aqfp_view \<Rightarrow> node \<Rightarrow> u32" where
  "num_splitter_levels v n =
     (if unat (splitter_capacity (ps v)) < length (fanout v ! n) then 2
      else if 1 < length (fanout v ! n) then 1 else 0)"

text \<open>\<^verbatim>\<open>num_splitters\<close>: the last branch is \<^verbatim>\<open>_ps.splitter_capacity + 1u\<close> in \<^verbatim>\<open>uint32_t\<close>.\<close>

definition num_splitters :: "aqfp_view \<Rightarrow> node \<Rightarrow> u32" where
  "num_splitters v n =
     (if length (fanout v ! n) \<le> 1 then 0
      else if length (fanout v ! n) \<le> unat (splitter_capacity (ps v)) then 1
      else splitter_capacity (ps v) + 1)"

text \<open>\<^verbatim>\<open>node_depth::operator()\<close>: the cost function handed to the depth view.\<close>

definition node_depth :: "aqfp_view \<Rightarrow> node \<Rightarrow> u32" where
  "node_depth v n = num_splitter_levels v n + 1"

text \<open>
  \<^verbatim>\<open>level\<close> and \<^verbatim>\<open>depth\<close>: what \<^verbatim>\<open>_depth_view.level(n)\<close> returns, minus the node's own
  splitter levels, in \<^verbatim>\<open>uint32_t\<close> arithmetic. The table of the level engine holds
  natural numbers; \<open>word_of_nat\<close> is the \<^verbatim>\<open>uint32_t\<close> the depth view hands out.
\<close>

definition level :: "aqfp_view \<Rightarrow> node \<Rightarrow> u32" where
  "level v n = word_of_nat (dv_levels v ! n) - num_splitter_levels v n"


text \<open>
  \<^verbatim>\<open>num_buffers(node)\<close>: the loop over \<^verbatim>\<open>_fanout[n]\<close>. The \<^verbatim>\<open>assert\<close> is a branch of the
  model: a consumer whose level is not above \<^verbatim>\<open>nlevel\<close> ends the count with
  \<open>Assertion_failed\<close>. All arithmetic is \<^verbatim>\<open>uint32_t\<close>.
\<close>

fun count_fanout_buffers :: "aqfp_view \<Rightarrow> u32 \<Rightarrow> node list \<Rightarrow> u32 \<Rightarrow> error + u32" where
  "count_fanout_buffers v nlevel [] count = Inr count"
| "count_fanout_buffers v nlevel (fo # fos) count =
     (if nlevel < level v fo
      then count_fanout_buffers v nlevel fos (count + (level v fo - nlevel - 1))
      else Inl Assertion_failed)"

definition num_buffers_node :: "aqfp_view \<Rightarrow> node \<Rightarrow> error + u32" where
  "num_buffers_node v n =
     (case count_fanout_buffers v (level v n + num_splitter_levels v n) (fanout v ! n) 0 of
        Inl e \<Rightarrow> Inl e
      | Inr count \<Rightarrow> Inr (count + num_splitters v n))"

text \<open>\<^verbatim>\<open>num_buffers()\<close>: the sum over \<^verbatim>\<open>foreach_gate\<close>.\<close>

fun sum_gate_buffers :: "aqfp_view \<Rightarrow> node list \<Rightarrow> u32 \<Rightarrow> error + u32" where
  "sum_gate_buffers v [] count = Inr count"
| "sum_gate_buffers v (n # ns) count =
     (case num_buffers_node v n of
        Inl e \<Rightarrow> Inl e
      | Inr c \<Rightarrow> sum_gate_buffers v ns (count + c))"

definition num_buffers :: "aqfp_view \<Rightarrow> error + u32" where
  "num_buffers v = sum_gate_buffers v (gates (net v)) 0"

text \<open>
  The count as the specification words it: the sum over the consumers of \<open>n\<close> of
  \<open>level(fo) - (level(n) + stages(n)) - 1\<close>, plus \<open>cells(n)\<close>; and the condition the
  \<^verbatim>\<open>assert\<close> of \<^verbatim>\<open>num_buffers(node)\<close> tests for every consumer.
\<close>

definition buffers_formula :: "aqfp_view \<Rightarrow> node \<Rightarrow> u32" where
  "buffers_formula v n =
     sum_list (map (\<lambda>fo. level v fo - (level v n + num_splitter_levels v n) - 1)
       (fanout v ! n)) + num_splitters v n"

definition levels_ok :: "aqfp_view \<Rightarrow> node \<Rightarrow> bool" where
  "levels_ok v n \<longleftrightarrow>
     list_all (\<lambda>fo. level v n + num_splitter_levels v n < level v fo) (fanout v ! n)"

section \<open>Fan-out index: full recomputation\<close>

text \<open>
  The body of the inner lambda of \<^verbatim>\<open>compute_fanout\<close>: \<^verbatim>\<open>std::find\<close>, then \<^verbatim>\<open>push_back\<close>
  when the gate is not yet in \<^verbatim>\<open>_fanout[c]\<close>.
\<close>

definition record_fanout :: "node \<Rightarrow> signal \<Rightarrow> node list list \<Rightarrow> node list list" where
  "record_fanout n c F =
     (if n \<in> set (F ! index c) then F else F[index c := F ! index c @ [n]])"

text \<open>
  \<^verbatim>\<open>compute_fanout\<close>: \<^verbatim>\<open>_fanout.reset()\<close> gives every node of the network an empty
  vector; then every gate, in \<^verbatim>\<open>foreach_gate\<close> order, is recorded at each of its fan-ins,
  in port order. The second \<^verbatim>\<open>foreach_gate\<close> loop only prints a diagnostic (and only when
  \<^verbatim>\<open>Check\<close> is set); it changes nothing.
\<close>

definition compute_fanout :: "ntk \<Rightarrow> node list list" where
  "compute_fanout N =
     fold (\<lambda>n F. fold (record_fanout n) (fanins N n) F) (gates N)
       (replicate (size_ntk N) [])"

text \<open>The nodes the \<^verbatim>\<open>Check\<close> diagnostic reports: gates with more than \<^verbatim>\<open>_max_fanout\<close> consumers.\<close>

definition too_many_fanouts :: "aqfp_view \<Rightarrow> node list" where
  "too_many_fanouts v = filter (\<lambda>n. max_fanout v < length (fanout v ! n)) (gates (net v))"

section \<open>Level engine\<close>

text \<open>
  Modelled from the spec: \<^verbatim>\<open>depth_view\<close> (\<^verbatim>\<open>mockturtle/views/depth_view.hpp\<close>), whose
  \<^verbatim>\<open>update_levels\<close>, \<^verbatim>\<open>level\<close> and \<^verbatim>\<open>depth\<close> the view calls, is not among the sources.
  The specification describes its level table \<open>L\<close> as a longest-path level in which the
  edge from a fan-in \<open>f\<close> to its consumer costs \<open>1 + extra(f)\<close>, with primary inputs at
  level 0 and \<open>L[n] = 1 + max\<close> over the fan-ins \<open>f\<close> of \<open>L[f] + extra(f)\<close> for a gate,
  computed by a traversal in topological order; the depth is the maximum of \<open>L\<close> over all
  nodes. The cost function is the \<^verbatim>\<open>node_depth\<close> functor of the view, so
  \<open>1 + extra(f)\<close> is \<open>node_depth f\<close>.

  The topological order is built in rounds: a gate is ready once every gate among its
  fan-ins has been listed, and a round appends the gates that are ready, in
  \<^verbatim>\<open>foreach_gate\<close> order. As many rounds as there are gates list every gate of an acyclic
  network. The table starts at 0 for every node, and the gates are then visited in that
  order. (A gate on a cycle never becomes ready, and neither do the gates behind it;
  their entries stay 0. The substrate of the specification is a directed acyclic graph.)
\<close>

definition ready :: "ntk \<Rightarrow> node list \<Rightarrow> node \<Rightarrow> bool" where
  "ready N listed g \<longleftrightarrow>
     g \<notin> set listed
     \<and> list_all (\<lambda>f. f \<in> set (gates N) \<longrightarrow> f \<in> set listed) (fanin_nodes N g)"

definition topo_round :: "ntk \<Rightarrow> node list \<Rightarrow> node list" where
  "topo_round N listed = listed @ filter (ready N listed) (gates N)"

fun topo_rounds :: "ntk \<Rightarrow> nat \<Rightarrow> node list \<Rightarrow> node list" where
  "topo_rounds N 0 listed = listed"
| "topo_rounds N (Suc k) listed = topo_rounds N k (topo_round N listed)"

definition topo_order :: "ntk \<Rightarrow> node list" where
  "topo_order N = topo_rounds N (length (gates N)) []"

definition gate_level :: "(node \<Rightarrow> nat) \<Rightarrow> nat list \<Rightarrow> signal list \<Rightarrow> nat" where
  "gate_level cost L fis = fold (\<lambda>f acc. max acc (L ! index f + cost (index f))) fis 0"

definition level_step :: "ntk \<Rightarrow> (node \<Rightarrow> nat) \<Rightarrow> node \<Rightarrow> nat list \<Rightarrow> nat list" where
  "level_step N cost n L =
     (if n \<in> set (gates N) then L[n := gate_level cost L (fanins N n)] else L)"

definition update_levels :: "ntk \<Rightarrow> (node \<Rightarrow> nat) \<Rightarrow> nat list" where
  "update_levels N cost = fold (level_step N cost) (topo_order N) (replicate (size_ntk N) 0)"


definition max_level :: "nat list \<Rightarrow> nat" where
  "max_level L = fold max L 0"

text \<open>\<^verbatim>\<open>update_fanout\<close>: \<^verbatim>\<open>compute_fanout()\<close>, then \<^verbatim>\<open>_depth_view.update_levels()\<close>.\<close>

definition update_fanout :: "aqfp_view \<Rightarrow> aqfp_view" where
  "update_fanout v =
     (let v1 = v\<lparr>fanout := compute_fanout (net v)\<rparr>;
          L = update_levels (net v) (\<lambda>n. unat (node_depth v1 n))
      in v1\<lparr>dv_levels := L, dv_depth := max_level L\<rparr>)"

section \<open>Construction\<close>

text \<open>
  The type traits the class template and its constructor test. They are compile-time
  properties of \<^verbatim>\<open>Ntk\<close>; the model takes them as a record next to the network.
\<close>

record ntk_traits =
  has_foreach_fanout :: bool
  has_depth :: bool
  has_level :: bool
  has_update_levels :: bool
  has_foreach_node :: bool
  has_foreach_fanin :: bool
  is_mig_network :: bool

text \<open>
  What an instantiation yields: the specialisation for networks that already have
  \<^verbatim>\<open>foreach_fanout\<close> is the base network and nothing else; the other one is the view.
\<close>

datatype built = Plain_network ntk | View aqfp_view

text \<open>
  \<^verbatim>\<open>_max_fanout\<close> is initialised with \<^verbatim>\<open>std::pow(ps.splitter_capacity, ps.max_splitter_levels)\<close>:
  both \<^verbatim>\<open>uint32_t\<close> arguments are converted to \<^verbatim>\<open>double\<close>, the power is computed in
  floating point, and the result is converted to \<^verbatim>\<open>uint64_t\<close>. The result is rounded
  (and is not representable at all once it exceeds the range of \<^verbatim>\<open>uint64_t\<close>), so the
  value stored is a matter of the platform's arithmetic; the model takes the function from
  the two arguments to the stored value as a parameter.
\<close>

type_synonym std_pow = "u32 \<Rightarrow> u32 \<Rightarrow> nat"

text \<open>The member initialisers: \<^verbatim>\<open>_fanout(ntk)\<close> holds an empty vector for every node.\<close>

definition initial_view :: "std_pow \<Rightarrow> ntk \<Rightarrow> aqfp_view_params \<Rightarrow> aqfp_view" where
  "initial_view pw N p =
     \<lparr>net = N, fanout = replicate (size_ntk N) [], ps = p,
      max_fanout = pw (splitter_capacity p) (max_splitter_levels p),
      dv_levels = replicate (size_ntk N) 0, dv_depth = 0\<rparr>"

text \<open>
  The lines written to \<^verbatim>\<open>std::cerr\<close>: the warning of the specialisation for networks with
  \<^verbatim>\<open>foreach_fanout\<close>, the warning for a network other than \<^verbatim>\<open>mig_network\<close>, and the
  diagnostic of \<^verbatim>\<open>compute_fanout\<close>, which names the node and the number of its consumers.
  The diagnostic is compiled in only when the template parameter \<^verbatim>\<open>Check\<close> is set; the
  second \<^verbatim>\<open>foreach_gate\<close> loop of \<^verbatim>\<open>compute_fanout\<close> then prints one line for every gate
  with more than \<^verbatim>\<open>_max_fanout\<close> consumers.
\<close>

datatype message = Built_on_fanout_view | Not_mig_network | Too_many_fanouts node nat

definition check_diagnostics :: "bool \<Rightarrow> aqfp_view \<Rightarrow> message list" where
  "check_diagnostics chk v =
     (if chk then map (\<lambda>n. Too_many_fanouts n (length (fanout v ! n))) (too_many_fanouts v)
      else [])"

text \<open>
  The constructors. With \<^verbatim>\<open>has_foreach_fanout_v<Ntk>\<close> the first specialisation is chosen:
  it copies the network and prints a warning. Otherwise the three \<^verbatim>\<open>static_assert\<close>s of
  the second are tested in order (a failure stops compilation), a warning is printed for
  a network other than \<^verbatim>\<open>mig_network\<close>, and \<^verbatim>\<open>update_fanout()\<close> runs, with the diagnostic
  of \<^verbatim>\<open>compute_fanout\<close> when \<^verbatim>\<open>Check\<close> is set. The event handlers registered afterwards
  are the hooks of the next section; \<^verbatim>\<open>max_splitter_levels\<close> is read for \<^verbatim>\<open>_max_fanout\<close>
  only. The second component of the result is what was written to \<^verbatim>\<open>std::cerr\<close>, one
  entry per line.
\<close>

definition aqfp_view_ctor ::
  "std_pow \<Rightarrow> bool \<Rightarrow> ntk_traits \<Rightarrow> ntk \<Rightarrow> aqfp_view_params \<Rightarrow> error + built \<times> message list"
  where
  "aqfp_view_ctor pw chk tr N p =
     (if has_foreach_fanout tr then Inr (Plain_network N, [Built_on_fanout_view])
      else if has_depth tr \<or> has_level tr \<or> has_update_levels tr then Inl Static_assert_failed
      else if \<not> has_foreach_node tr then Inl Static_assert_failed
      else if \<not> has_foreach_fanin tr then Inl Static_assert_failed
      else Inr (View (update_fanout (initial_view pw N p)),
                (if is_mig_network tr then [] else [Not_mig_network])
                @ check_diagnostics chk (update_fanout (initial_view pw N p))))"

definition mig_traits :: ntk_traits where
  "mig_traits = \<lparr>has_foreach_fanout = False, has_depth = False, has_level = False,
     has_update_levels = False, has_foreach_node = True, has_foreach_fanin = True,
     is_mig_network = True\<rparr>"

section \<open>Incremental maintenance of the fan-out index\<close>

text \<open>
  The three event handlers the constructor registers. \<^verbatim>\<open>_fanout.resize()\<close> extends the
  vector to the size of the network; \<^verbatim>\<open>push_back\<close> appends without looking, and
  \<^verbatim>\<open>erase(remove(...))\<close> removes every occurrence. The handlers read the fan-ins of the
  node from the network as it is when the event arrives.
\<close>

definition resize_fanout :: "nat \<Rightarrow> node list list \<Rightarrow> node list list" where
  "resize_fanout sz F = (if length F < sz then F @ replicate (sz - length F) [] else F)"

definition push_fanout :: "node \<Rightarrow> signal \<Rightarrow> node list list \<Rightarrow> node list list" where
  "push_fanout n f F = F[index f := F ! index f @ [n]]"

definition erase_fanout :: "node \<Rightarrow> signal \<Rightarrow> node list list \<Rightarrow> node list list" where
  "erase_fanout n f F = F[index f := removeAll n (F ! index f)]"

definition on_add :: "aqfp_view \<Rightarrow> node \<Rightarrow> aqfp_view" where
  "on_add v n =
     v\<lparr>fanout := fold (push_fanout n) (fanins (net v) n)
                    (resize_fanout (size_ntk (net v)) (fanout v))\<rparr>"

definition on_modified :: "aqfp_view \<Rightarrow> node \<Rightarrow> signal list \<Rightarrow> aqfp_view" where
  "on_modified v n previous =
     v\<lparr>fanout := fold (push_fanout n) (fanins (net v) n)
                    (fold (erase_fanout n) previous (fanout v))\<rparr>"

definition on_delete :: "aqfp_view \<Rightarrow> node \<Rightarrow> aqfp_view" where
  "on_delete v n =
     v\<lparr>fanout := fold (erase_fanout n) (fanins (net v) n) ((fanout v)[n := []])\<rparr>"

text \<open>
  Modelled from the spec: the mutations of the network and the events they raise (the
  network classes are not among the sources). A gate is created from a fan-in list and
  gets the next free index; a modification replaces the fan-in list of a gate and reports
  the previous one; a deletion takes the gate out of the enumeration of gates while its
  fan-ins stay readable. A handler runs only if the configuration enabled it.
\<close>

datatype event = Node_added "signal list" | Node_modified node "signal list" | Node_deleted node

fun mutate :: "ntk \<Rightarrow> event \<Rightarrow> ntk" where
  "mutate N (Node_added fis) =
     N\<lparr>size_ntk := size_ntk N + 1, gates := gates N @ [size_ntk N],
       fanins := (fanins N)(size_ntk N := fis)\<rparr>"
| "mutate N (Node_modified n fis) = N\<lparr>fanins := (fanins N)(n := fis)\<rparr>"
| "mutate N (Node_deleted n) = N\<lparr>gates := removeAll n (gates N)\<rparr>"

fun deliver :: "aqfp_view \<Rightarrow> event \<Rightarrow> aqfp_view" where
  "deliver v (Node_added fis) =
     (let v' = v\<lparr>net := mutate (net v) (Node_added fis)\<rparr>
      in if update_on_add (ps v) then on_add v' (size_ntk (net v)) else v')"
| "deliver v (Node_modified n fis) =
     (let v' = v\<lparr>net := mutate (net v) (Node_modified n fis)\<rparr>
      in if update_on_modified (ps v) then on_modified v' n (fanins (net v) n) else v')"
| "deliver v (Node_deleted n) =
     (let v' = v\<lparr>net := mutate (net v) (Node_deleted n)\<rparr>
      in if update_on_delete (ps v) then on_delete v' n else v')"

fun hook_enabled :: "aqfp_view_params \<Rightarrow> event \<Rightarrow> bool" where
  "hook_enabled p (Node_added fis) = update_on_add p"
| "hook_enabled p (Node_modified n fis) = update_on_modified p"
| "hook_enabled p (Node_deleted n) = update_on_delete p"

text \<open>
  Events the network can raise: fan-ins are existing nodes, only gates are modified or
  deleted, and a deleted gate has no consumers left.
\<close>

fun valid_event :: "ntk \<Rightarrow> event \<Rightarrow> bool" where
  "valid_event N (Node_added fis) = list_all (\<lambda>f. index f < size_ntk N) fis"
| "valid_event N (Node_modified n fis) =
     (n \<in> set (gates N) \<and> list_all (\<lambda>f. index f < size_ntk N) fis)"
| "valid_event N (Node_deleted n) =
     (n \<in> set (gates N) \<and> list_all (\<lambda>g. n \<notin> set (fanin_nodes N g)) (gates N))"

fun run :: "aqfp_view \<Rightarrow> event list \<Rightarrow> aqfp_view" where
  "run v [] = v"
| "run v (e # es) = run (deliver v e) es"

fun valid_run :: "aqfp_view \<Rightarrow> event list \<Rightarrow> bool" where
  "valid_run v [] = True"
| "valid_run v (e # es) =
     (valid_event (net v) e \<and> hook_enabled (ps v) e \<and> valid_run (deliver v e) es)"

fun distinct_ports :: "event \<Rightarrow> bool" where
  "distinct_ports (Node_added fis) = distinct (map index fis)"
| "distinct_ports (Node_modified n fis) = distinct (map index fis)"
| "distinct_ports (Node_deleted n) = True"

text \<open>
  Exactness of the index as a set (a gate is in \<open>F[c]\<close> iff it reads \<open>c\<close>), and absence of
  duplicates.
\<close>

definition fanout_exact :: "aqfp_view \<Rightarrow> bool" where
  "fanout_exact v \<longleftrightarrow>
     length (fanout v) = size_ntk (net v)
     \<and> list_all (\<lambda>c. set (fanout v ! c)
                       = set (filter (\<lambda>m. c \<in> set (fanin_nodes (net v) m)) (gates (net v))))
         [0..<size_ntk (net v)]"

definition fanout_unique :: "aqfp_view \<Rightarrow> bool" where
  "fanout_unique v \<longleftrightarrow> list_all distinct (fanout v)"

section \<open>Cascading substitution\<close>

text \<open>
  Modelled from the spec: \<^verbatim>\<open>replace_in_node\<close>, \<^verbatim>\<open>replace_in_outputs\<close> and \<^verbatim>\<open>take_out_node\<close> of
  the network, which \<^verbatim>\<open>substitute_node\<close> calls and which are not among the sources.
  Replacing a node inside a signal keeps the polarity composed: the new signal's
  complement bit is combined by exclusive or with the bit of the edge it replaces.
\<close>

definition rewire :: "node \<Rightarrow> signal \<Rightarrow> signal \<Rightarrow> signal" where
  "rewire old new c =
     (if index c = old
      then \<lparr>index = index new, complement = (complement new \<noteq> complement c)\<rparr>
      else c)"

text \<open>
  The network's own test whether a node with the given new fan-ins has become redundant;
  the signal it returns is the one the node is to be retired for. The test belongs to the
  network, so the model takes it as a parameter.
\<close>

type_synonym collapse = "ntk \<Rightarrow> node \<Rightarrow> signal list \<Rightarrow> signal option"

text \<open>
  \<^verbatim>\<open>replace_in_node\<close>: a node that does not read \<open>old\<close> is left alone; a node that has
  become redundant is left as it is and reported as a follow-up pair; otherwise the
  occurrences of \<open>old\<close> among its fan-ins are replaced and the modification is announced.
\<close>

definition replace_in_node ::
  "collapse \<Rightarrow> aqfp_view \<Rightarrow> node \<Rightarrow> node \<Rightarrow> signal \<Rightarrow> aqfp_view \<times> (node \<times> signal) option" where
  "replace_in_node red v n old new =
     (if old \<notin> set (fanin_nodes (net v) n) then (v, None)
      else case red (net v) n (map (rewire old new) (fanins (net v) n)) of
             Some s \<Rightarrow> (v, Some (n, s))
           | None \<Rightarrow>
               (deliver v (Node_modified n (map (rewire old new) (fanins (net v) n))), None))"

text \<open>\<^verbatim>\<open>replace_in_outputs\<close>: the same replacement among the primary outputs.\<close>

definition replace_in_outputs :: "aqfp_view \<Rightarrow> node \<Rightarrow> signal \<Rightarrow> aqfp_view" where
  "replace_in_outputs v old new =
     v\<lparr>net := (net v)\<lparr>outputs := map (rewire old new) (outputs (net v))\<rparr>\<rparr>"

text \<open>
  \<^verbatim>\<open>take_out_node\<close>: the deletion is announced while the fan-ins of the node can still be
  read, the node leaves the enumeration of gates, and its own fan-in edges are removed.
\<close>

definition take_out_node :: "aqfp_view \<Rightarrow> node \<Rightarrow> aqfp_view" where
  "take_out_node v n =
     (let v' = deliver v (Node_deleted n)
      in v'\<lparr>net := (net v')\<lparr>fanins := (fanins (net v'))(n := [])\<rparr>\<rparr>)"

text \<open>
  \<^verbatim>\<open>substitute_node\<close> (it first prints that the view has not been tested for network
  updating). The body of the \<^verbatim>\<open>for\<close> loop over the snapshot \<^verbatim>\<open>parents\<close> pushes a follow-up
  pair on the stack; the \<^verbatim>\<open>while\<close> loop pops one pair per round. Since the stack can grow
  while it is processed, the loop takes fuel: \<open>None\<close> means that the fuel ran out.
\<close>

definition substitute_parent ::
  "collapse \<Rightarrow> node \<Rightarrow> signal \<Rightarrow> node \<Rightarrow> aqfp_view \<times> (node \<times> signal) list
     \<Rightarrow> aqfp_view \<times> (node \<times> signal) list" where
  "substitute_parent red old new n st =
     (case replace_in_node red (fst st) n old new of
        (v', None) \<Rightarrow> (v', snd st)
      | (v', Some repl) \<Rightarrow> (v', repl # snd st))"

fun substitute_loop ::
  "collapse \<Rightarrow> nat \<Rightarrow> (node \<times> signal) list \<Rightarrow> aqfp_view \<Rightarrow> aqfp_view option" where
  "substitute_loop red fuel [] v = Some v"
| "substitute_loop red 0 (p # stack) v = None"
| "substitute_loop red (Suc fuel) ((old, new) # stack) v =
     (let parents = fanout v ! old;
          st = fold (substitute_parent red old new) parents (v, stack);
          v2 = replace_in_outputs (fst st) old new;
          v3 = take_out_node v2 old
      in substitute_loop red fuel (snd st) v3)"

definition substitute_node ::
  "collapse \<Rightarrow> nat \<Rightarrow> aqfp_view \<Rightarrow> node \<Rightarrow> signal \<Rightarrow> aqfp_view option" where
  "substitute_node red fuel v old_node new_signal =
     substitute_loop red fuel [(old_node, new_signal)] v"

text \<open>
  A call of \<^verbatim>\<open>substitute_node\<close> triggers no cascade when the loop over the consumers of
  \<open>old\<close> ends with the stack as empty as \<^verbatim>\<open>pop\<close> left it: no call of \<^verbatim>\<open>replace_in_node\<close>
  returned a follow-up pair.
\<close>

definition no_cascade :: "collapse \<Rightarrow> aqfp_view \<Rightarrow> node \<Rightarrow> signal \<Rightarrow> bool" where
  "no_cascade red v old new \<longleftrightarrow>
     snd (fold (substitute_parent red old new) (fanout v ! old) (v, [])) = []"

text \<open>
  Two instances of the network's test. The first never reports a node. The second is
  modelled from the spec's example of a node that has become logically redundant, for
  three-input majority gates: a gate with two equal fan-ins is that fan-in, and a gate
  with two complementary fan-ins is the remaining one.
\<close>

definition no_collapse :: collapse where
  "no_collapse N n fis = None"

definition opposite :: "signal \<Rightarrow> signal \<Rightarrow> bool" where
  "opposite a b \<longleftrightarrow> index a = index b \<and> complement a \<noteq> complement b"

fun majority_collapse :: collapse where
  "majority_collapse N n [a, b, c] =
     (if a = b \<or> a = c then Some a
      else if b = c then Some b
      else if opposite a b then Some c
      else if opposite a c then Some b
      else if opposite b c then Some a
      else None)"
| "majority_collapse N n fis = None"

section \<open>Example networks\<close>

definition sg :: "node \<Rightarrow> bool \<Rightarrow> signal" where
  "sg n c = \<lparr>index = n, complement = c\<rparr>"

text \<open>
  A majority network: node 0 is the constant, 1 to 4 are primary inputs, 5 to 10 are
  gates. Gate 5 drives five gates, input 4 drives four.
\<close>

definition sample_ntk :: ntk where
  "sample_ntk =
     \<lparr>size_ntk = 11, gates = [5, 6, 7, 8, 9, 10],
      fanins = (\<lambda>n. if n = 5 then [sg 1 False, sg 2 False, sg 3 False]
                     else if n = 6 then [sg 1 False, sg 4 False, sg 5 False]
                     else if n = 7 then [sg 2 False, sg 4 False, sg 5 False]
                     else if n = 8 then [sg 3 False, sg 4 False, sg 5 False]
                     else if n = 9 then [sg 1 True, sg 4 False, sg 5 False]
                     else if n = 10 then [sg 5 False, sg 6 False, sg 7 True]
                     else []),
      outputs = [sg 8 False, sg 9 False, sg 10 True]\<rparr>"

definition sample_view :: aqfp_view where
  "sample_view = \<lparr>net = sample_ntk, fanout = [], ps = default_params, max_fanout = 16,
     dv_levels = [], dv_depth = 0\<rparr>"

text \<open>
  A second majority network: gate 4 drives gate 5 only, gate 5 drives gates 6 and 7.
\<close>

definition chain_ntk :: ntk where
  "chain_ntk =
     \<lparr>size_ntk = 8, gates = [4, 5, 6, 7],
      fanins = (\<lambda>n. if n = 4 then [sg 1 False, sg 2 False, sg 3 False]
                     else if n = 5 then [sg 1 False, sg 2 True, sg 4 False]
                     else if n = 6 then [sg 1 True, sg 3 False, sg 5 False]
                     else if n = 7 then [sg 2 False, sg 3 True, sg 5 False]
                     else []),
      outputs = [sg 6 False, sg 7 False]\<rparr>"

definition chain_view :: aqfp_view where
  "chain_view = \<lparr>net = chain_ntk, fanout = [], ps = default_params, max_fanout = 16,
     dv_levels = [], dv_depth = 0\<rparr>"

text \<open>A view over a one-gate network whose capacity is 1: node 1 drives the gate 2 only.\<close>

definition capacity_one_view :: aqfp_view where
  "capacity_one_view =
     \<lparr>net = \<lparr>size_ntk = 3, gates = [2],
              fanins = (\<lambda>n. if n = 2 then [\<lparr>index = 1, complement = False\<rparr>] else []),
              outputs = [\<lparr>index = 2, complement = False\<rparr>]\<rparr>,
      fanout = [[], [2], []],
      ps = default_params\<lparr>splitter_capacity := 1\<rparr>,
      max_fanout = 1, dv_levels = [0, 0, 1], dv_depth = 1\<rparr>"

text \<open>A network of two primary inputs, before any gate is created.\<close>

definition two_input_view :: aqfp_view where
  "two_input_view =
     \<lparr>net = \<lparr>size_ntk = 3, gates = [], fanins = (\<lambda>n. []), outputs = []\<rparr>,
      fanout = [[], [], []], ps = default_params, max_fanout = 16,
      dv_levels = [0, 0, 0], dv_depth = 0\<rparr>"

text \<open>
  The second example network with an additional output on gate 4, and the same view with
  the deletion handler switched off.
\<close>

definition chain_out_view :: aqfp_view where
  "chain_out_view =
     update_fanout (chain_view\<lparr>net := chain_ntk\<lparr>outputs := [sg 4 True, sg 6 False, sg 7 False]\<rparr>\<rparr>)"

definition chain_out_view_no_delete :: aqfp_view where
  "chain_out_view_no_delete = chain_out_view\<lparr>ps := default_params\<lparr>update_on_delete := False\<rparr>\<rparr>"

text \<open>
  The same view with the handler for added nodes switched off, after a gate 8 that reads
  gate 4 has been created: the index does not know the new consumer of gate 4.
\<close>

definition chain_out_view_no_add :: aqfp_view where
  "chain_out_view_no_add =
     deliver (chain_out_view\<lparr>ps := default_params\<lparr>update_on_add := False\<rparr>\<rparr>)
       (Node_added [sg 4 False, sg 1 False, sg 2 True])"



text \<open>
  The power as \<^verbatim>\<open>std::pow\<close> returns it where it is small: the capacities 2 and 4 with two
  or three levels, as in the examples, give 4, 8, 16 and 64, which \<^verbatim>\<open>double\<close> represents
  exactly.
\<close>

definition small_pow :: std_pow where
  "small_pow c s = unat c ^ unat s"

section \<open>Properties of the buffering formulas\<close>

text \<open>
  C4 (as amended). With \<open>k\<close> the length of \<open>F[n]\<close> and a capacity \<open>C\<close> of at least 1,
  \<^verbatim>\<open>num_splitter_levels\<close> is 0 for \<open>k \<le> 1\<close>, 1 for \<open>1 < k \<le> C\<close> and 2 for \<open>k > C\<close>, and
  \<^verbatim>\<open>num_splitters\<close> is 0, 1 and \<open>C + 1\<close> (in \<^verbatim>\<open>uint32_t\<close>) on the same ranges. At the
  boundaries: \<open>k \<in> {0, 1}\<close> gives 0 and 0, \<open>k = C + 1\<close> gives 2 and \<open>C + 1\<close>, and \<open>k = C\<close>
  gives 1 and 1 when \<open>C\<close> is at least 2.
\<close>

theorem buffering_formula:
  assumes C: "1 \<le> unat (splitter_capacity (ps v))"
  shows "num_splitter_levels v n =
           (if length (fanout v ! n) \<le> 1 then 0
            else if length (fanout v ! n) \<le> unat (splitter_capacity (ps v)) then 1 else 2)
       \<and> num_splitters v n =
           (if length (fanout v ! n) \<le> 1 then 0
            else if length (fanout v ! n) \<le> unat (splitter_capacity (ps v)) then 1
            else splitter_capacity (ps v) + 1)
       \<and> (length (fanout v ! n) \<le> 1 \<longrightarrow>
            num_splitter_levels v n = 0 \<and> num_splitters v n = 0)
       \<and> (length (fanout v ! n) = unat (splitter_capacity (ps v)) + 1 \<longrightarrow>
            num_splitter_levels v n = 2 \<and> num_splitters v n = splitter_capacity (ps v) + 1)
       \<and> (length (fanout v ! n) = unat (splitter_capacity (ps v))
            \<and> 2 \<le> unat (splitter_capacity (ps v)) \<longrightarrow>
            num_splitter_levels v n = 1 \<and> num_splitters v n = 1)"
  using C by (auto simp: num_splitter_levels_def num_splitters_def)

theorem buffering_formula_witness:
  "1 \<le> unat (splitter_capacity (ps (update_fanout sample_view)))
   \<and> length (fanout (update_fanout sample_view) ! 4)
       = unat (splitter_capacity (ps (update_fanout sample_view)))
   \<and> num_splitter_levels (update_fanout sample_view) 4 = 1
   \<and> num_splitters (update_fanout sample_view) 4 = 1
   \<and> length (fanout (update_fanout sample_view) ! 5)
       = unat (splitter_capacity (ps (update_fanout sample_view))) + 1
   \<and> num_splitter_levels (update_fanout sample_view) 5 = 2
   \<and> num_splitters (update_fanout sample_view) 5 = 5
   \<and> num_splitter_levels (update_fanout sample_view) 8 = 0
   \<and> num_splitters (update_fanout sample_view) 8 = 0"
proof -
  define V where "V = update_fanout sample_view"
  have C: "unat (splitter_capacity (ps V)) = 4" unfolding V_def by code_simp
  have C': "splitter_capacity (ps V) = 4" unfolding V_def by code_simp
  have k4: "length (fanout V ! 4) = 4" unfolding V_def by code_simp
  have k5: "length (fanout V ! 5) = 5" unfolding V_def by code_simp
  have k8: "length (fanout V ! 8) = 0" unfolding V_def by code_simp
  have h: "1 \<le> unat (splitter_capacity (ps V))" using C by simp
  have "num_splitter_levels V 4 = 1 \<and> num_splitters V 4 = 1"
    using buffering_formula [OF h, of 4] C k4 by simp
  moreover have "num_splitter_levels V 5 = 2 \<and> num_splitters V 5 = 5"
    using buffering_formula [OF h, of 5] C C' k5 by simp
  moreover have "num_splitter_levels V 8 = 0 \<and> num_splitters V 8 = 0"
    using buffering_formula [OF h, of 8] C k8 by simp
  ultimately show ?thesis using h C k4 k5 unfolding V_def by simp
qed

text \<open>
  With capacity 1, a node with exactly one consumer has \<open>k = C\<close>, and both counters are 0,
  not 1.
\<close>

theorem fanout_equal_capacity_counterexample:
  "length (fanout capacity_one_view ! 1) = unat (splitter_capacity (ps capacity_one_view))
   \<and> num_splitter_levels capacity_one_view 1 = 0
   \<and> num_splitters capacity_one_view 1 = 0"
  by (simp add: capacity_one_view_def default_params_def num_splitter_levels_def
      num_splitters_def)

section \<open>Exactness of the recomputed fan-out index\<close>

lemma length_record_fanout [simp]: "length (record_fanout n c F) = length F"
  by (simp add: record_fanout_def)

lemma length_fold_record [simp]: "length (fold (record_fanout n) fis F) = length F"
  by (induction fis arbitrary: F) simp_all

lemma record_fanout_nth:
  "k < length F \<Longrightarrow> record_fanout n c F ! k =
     (if index c = k \<and> n \<notin> set (F ! k) then F ! k @ [n] else F ! k)"
  by (cases "index c = k") (auto simp: record_fanout_def)

text \<open>One gate: it is appended to the vector of each of its fan-ins, once.\<close>

lemma fold_record_nth:
  "k < length F \<Longrightarrow> fold (record_fanout n) fis F ! k =
     (if k \<in> index ` set fis \<and> n \<notin> set (F ! k) then F ! k @ [n] else F ! k)"
proof (induction fis arbitrary: F)
  case Nil
  then show ?case by simp
next
  case (Cons c fis)
  then show ?case by (auto simp: record_fanout_nth)
qed

lemma length_fold_gates [simp]:
  "length (fold (\<lambda>n F. fold (record_fanout n) (fs n) F) gs F) = length F"
  by (induction gs arbitrary: F) simp_all

text \<open>All gates: the vector of \<open>k\<close> grows by the gates that read \<open>k\<close>, in visiting order.\<close>

lemma fold_gates_nth:
  "k < length F \<Longrightarrow> distinct gs \<Longrightarrow> set gs \<inter> set (F ! k) = {} \<Longrightarrow>
   fold (\<lambda>n F. fold (record_fanout n) (fs n) F) gs F ! k =
     F ! k @ filter (\<lambda>m. k \<in> index ` set (fs m)) gs"
proof (induction gs arbitrary: F)
  case Nil
  then show ?case by simp
next
  case (Cons g gs)
  let ?F = "fold (record_fanout g) (fs g) F"
  have k: "k < length ?F" using Cons.prems by simp
  have Fk: "?F ! k = (if k \<in> index ` set (fs g) then F ! k @ [g] else F ! k)"
    using Cons.prems by (auto simp: fold_record_nth)
  have disj: "set gs \<inter> set (?F ! k) = {}"
    using Cons.prems Fk by auto
  have "fold (\<lambda>n F. fold (record_fanout n) (fs n) F) gs ?F ! k =
          ?F ! k @ filter (\<lambda>m. k \<in> index ` set (fs m)) gs"
    using Cons.IH [OF k _ disj] Cons.prems by simp
  then show ?case using Fk by simp
qed

lemma length_compute_fanout [simp]: "length (compute_fanout N) = size_ntk N"
  by (simp add: compute_fanout_def)

lemma compute_fanout_nth:
  "distinct (gates N) \<Longrightarrow> k < size_ntk N \<Longrightarrow>
   compute_fanout N ! k = filter (\<lambda>m. k \<in> set (fanin_nodes N m)) (gates N)"
  by (simp add: compute_fanout_def fold_gates_nth fanin_nodes_def)

lemma fanout_update_fanout [simp]: "fanout (update_fanout v) = compute_fanout (net v)"
  by (simp add: update_fanout_def Let_def)

lemma net_update_fanout [simp]: "net (update_fanout v) = net v"
  by (simp add: update_fanout_def Let_def)

lemma ps_update_fanout [simp]: "ps (update_fanout v) = ps v"
  by (simp add: update_fanout_def Let_def)

lemma count_list_distinct:
  "distinct xs \<Longrightarrow> count_list xs x = (if x \<in> set xs then 1 else 0)"
  by (induction xs) auto

lemma wf_ntk_distinct: "wf_ntk N \<Longrightarrow> distinct (gates N)"
  by (simp add: wf_ntk_def)

text \<open>
  C2. After \<^verbatim>\<open>update_fanout\<close>, for every node \<open>n\<close> of a well-formed network, \<open>F[n]\<close> is the
  list of gates that have \<open>n\<close> among their fan-ins, in the order \<^verbatim>\<open>foreach_gate\<close> visits
  them: a gate \<open>m\<close> is in \<open>F[n]\<close> iff \<open>n\<close> is a fan-in of \<open>m\<close>, and every such gate occurs
  exactly once, also when it reads \<open>n\<close> on several ports.
\<close>

theorem update_fanout_exact:
  assumes wf: "wf_ntk (net v)" and n: "n < size_ntk (net v)"
  shows "fanout (update_fanout v) ! n =
           filter (\<lambda>m. n \<in> set (fanin_nodes (net v) m)) (gates (net v))
       \<and> (\<forall>m. m \<in> set (fanout (update_fanout v) ! n) \<longleftrightarrow>
            m \<in> set (gates (net v)) \<and> n \<in> set (fanin_nodes (net v) m))
       \<and> (\<forall>m. count_list (fanout (update_fanout v) ! n) m =
            (if m \<in> set (gates (net v)) \<and> n \<in> set (fanin_nodes (net v) m) then 1 else 0))"
proof -
  let ?F = "fanout (update_fanout v) ! n"
  have d: "distinct (gates (net v))" using wf by (rule wf_ntk_distinct)
  have eq: "?F = filter (\<lambda>m. n \<in> set (fanin_nodes (net v) m)) (gates (net v))"
    using d n by (simp add: compute_fanout_nth)
  have mem: "\<forall>m. m \<in> set ?F \<longleftrightarrow>
      m \<in> set (gates (net v)) \<and> n \<in> set (fanin_nodes (net v) m)"
    unfolding eq by auto
  have "distinct ?F" unfolding eq using d by simp
  then have "\<forall>m. count_list ?F m = (if m \<in> set ?F then 1 else 0)"
    by (simp add: count_list_distinct)
  then have cnt: "\<forall>m. count_list ?F m =
      (if m \<in> set (gates (net v)) \<and> n \<in> set (fanin_nodes (net v) m) then 1 else 0)"
    using mem by simp
  show ?thesis using eq mem cnt by blast
qed

theorem update_fanout_exact_witness:
  "wf_ntk (net sample_view) \<and> 5 < size_ntk (net sample_view)
   \<and> fanout (update_fanout sample_view) ! 5 = [6, 7, 8, 9, 10]
   \<and> count_list (fanout (update_fanout sample_view) ! 5) 6 = 1"
proof -
  have wf: "wf_ntk (net sample_view)" by code_simp
  have n: "5 < size_ntk (net sample_view)" by code_simp
  have f: "filter (\<lambda>m. 5 \<in> set (fanin_nodes (net sample_view) m)) (gates (net sample_view))
             = [6, 7, 8, 9, 10]"
    by code_simp
  have g: "6 \<in> set (gates (net sample_view)) \<and> 5 \<in> set (fanin_nodes (net sample_view) 6)"
    by code_simp
  from update_fanout_exact [OF wf n] f g wf n show ?thesis by simp
qed

section \<open>Buffer counts\<close>

lemma count_fanout_buffers_eq:
  "count_fanout_buffers v nl fos c =
     (if list_all (\<lambda>fo. nl < level v fo) fos
      then Inr (c + sum_list (map (\<lambda>fo. level v fo - nl - 1) fos))
      else Inl Assertion_failed)"
  by (induction fos arbitrary: c) (simp_all add: add.assoc)

lemma num_buffers_node_eq:
  "num_buffers_node v n =
     (if levels_ok v n then Inr (buffers_formula v n) else Inl Assertion_failed)"
  by (simp add: num_buffers_node_def count_fanout_buffers_eq levels_ok_def buffers_formula_def)

lemma sum_gate_buffers_eq:
  "sum_gate_buffers v ns c =
     (if list_all (levels_ok v) ns then Inr (c + sum_list (map (buffers_formula v) ns))
      else Inl Assertion_failed)"
  by (induction ns arbitrary: c) (simp_all add: num_buffers_node_eq add.assoc)

text \<open>
  C5. \<^verbatim>\<open>num_buffers(n)\<close> is the sum, over the consumers \<open>fo\<close> in \<open>F[n]\<close>, of
  \<open>level(fo) - (level(n) + stages(n)) - 1\<close>, plus \<open>cells(n)\<close>, and \<^verbatim>\<open>num_buffers()\<close> is the
  sum of \<^verbatim>\<open>num_buffers(n)\<close> over the gates, all in \<^verbatim>\<open>uint32_t\<close> arithmetic; the functions
  return these sums whenever no assertion fails, and fail otherwise.
\<close>

theorem num_buffers_sum:
  "num_buffers_node v n =
     (if list_all (\<lambda>fo. level v n + num_splitter_levels v n < level v fo) (fanout v ! n)
      then Inr (sum_list (map (\<lambda>fo. level v fo - (level v n + num_splitter_levels v n) - 1)
                  (fanout v ! n)) + num_splitters v n)
      else Inl Assertion_failed)
   \<and> num_buffers v =
     (if list_all (levels_ok v) (gates (net v))
      then Inr (sum_list (map (buffers_formula v) (gates (net v))))
      else Inl Assertion_failed)
   \<and> (levels_ok v n \<longrightarrow> num_buffers_node v n = Inr (buffers_formula v n))"
  using num_buffers_node_eq [of v n] sum_gate_buffers_eq [of v "gates (net v)" 0]
  by (simp add: num_buffers_def levels_ok_def buffers_formula_def)

theorem num_buffers_sum_witness:
  "levels_ok (update_fanout sample_view) 5
   \<and> list_all (levels_ok (update_fanout sample_view)) (gates (net (update_fanout sample_view)))
   \<and> num_buffers_node (update_fanout sample_view) 5 = Inr 16
   \<and> num_buffers (update_fanout sample_view) = Inr 16"
proof -
  define V where "V = update_fanout sample_view"
  have a: "levels_ok V 5" unfolding V_def by code_simp
  have b: "list_all (levels_ok V) (gates (net V))" unfolding V_def by code_simp
  have c: "buffers_formula V 5 = 16" unfolding V_def by code_simp
  have d: "sum_list (map (buffers_formula V) (gates (net V))) = 16"
    unfolding V_def by code_simp
  have x: "levels_ok V 5 \<longrightarrow> num_buffers_node V 5 = Inr (buffers_formula V 5)"
    using num_buffers_sum [of V 5] by blast
  have y: "num_buffers V =
     (if list_all (levels_ok V) (gates (net V))
      then Inr (sum_list (map (buffers_formula V) (gates (net V))))
      else Inl Assertion_failed)"
    using num_buffers_sum [of V 5] by blast
  have "num_buffers_node V 5 = Inr 16" using x a c by simp
  moreover have "num_buffers V = Inr 16" using y b d by simp
  ultimately show ?thesis using a b unfolding V_def by blast
qed

section \<open>Levels of primary inputs\<close>

lemma unat_minus_1_u32: "unat (- 1 :: u32) = 4294967295"
proof -
  have e: "(- 1 :: u32) = 4294967295" by simp
  show ?thesis by (simp add: e)
qed

lemma unat_minus_2_u32: "unat (- 2 :: u32) = 4294967294"
proof -
  have e: "(- 2 :: u32) = 4294967294" by simp
  show ?thesis by (simp add: e)
qed

text \<open>
  C9. For a node \<open>p\<close> whose entry in the level table is 0 (as for a primary input) and
  whose fan-out count exceeds 1, \<^verbatim>\<open>level(p)\<close> is not 0: the \<^verbatim>\<open>uint32_t\<close> subtraction wraps
  and returns \<open>2^32 - stages(p)\<close>.
\<close>

theorem pi_level_wraps:
  assumes L: "dv_levels v ! p = 0" and k: "1 < length (fanout v ! p)"
  shows "level v p \<noteq> 0
       \<and> level v p = - num_splitter_levels v p
       \<and> unat (level v p) = 2 ^ 32 - unat (num_splitter_levels v p)"
proof (cases "unat (splitter_capacity (ps v)) < length (fanout v ! p)")
  case True
  then have s: "num_splitter_levels v p = 2" by (simp add: num_splitter_levels_def)
  have l: "level v p = - 2" using L by (simp add: level_def s)
  show ?thesis unfolding l s by (simp add: unat_minus_2_u32)
next
  case False
  then have s: "num_splitter_levels v p = 1" using k by (simp add: num_splitter_levels_def)
  have l: "level v p = - 1" using L by (simp add: level_def s)
  show ?thesis unfolding l s by (simp add: unat_minus_1_u32)
qed

theorem pi_level_wraps_witness:
  "dv_levels (update_fanout sample_view) ! 4 = 0
   \<and> 1 < length (fanout (update_fanout sample_view) ! 4)
   \<and> unat (level (update_fanout sample_view) 4) = 4294967295"
proof -
  define V where "V = update_fanout sample_view"
  have a: "dv_levels V ! 4 = 0" unfolding V_def by code_simp
  have b: "1 < length (fanout V ! 4)" unfolding V_def by code_simp
  have c: "num_splitter_levels V 4 = 1" unfolding V_def by code_simp
  have "unat (level V 4) = 2 ^ 32 - unat (num_splitter_levels V 4)"
    using pi_level_wraps [OF a b] by blast
  then have "unat (level V 4) = 4294967295" unfolding c by simp
  then show ?thesis using a b unfolding V_def by blast
qed

section \<open>Level table after a full recomputation\<close>





subsection \<open>The rounds produce a topological order\<close>











subsection \<open>The table computed along a topological order\<close>

lemma length_level_step [simp]: "length (level_step N cost n L) = length L"
  by (simp add: level_step_def)

lemma length_fold_level_step [simp]: "length (fold (level_step N cost) ord L) = length L"
  by (induction ord arbitrary: L) simp_all





lemma length_update_levels [simp]: "length (update_levels N cost) = size_ntk N"
  by (simp add: update_levels_def)








text \<open>
  A table that satisfies the inequality on every edge ranks the nodes, so the invariant
  can hold on acyclic networks only.
\<close>

lemma level_table_is_ranking:
  assumes "\<forall>g\<in>set (gates N). \<forall>f\<in>set (fanins N g). L ! index f + s (index f) + 1 \<le> L ! g"
  shows "ranked N (\<lambda>n. L ! n)"
  using assms by (fastforce simp: ranked_def list_all_iff fanin_nodes_def)



section \<open>Primary outputs and the fan-out index\<close>

lemma compute_fanout_outputs [simp]: "compute_fanout (N\<lparr>outputs := os\<rparr>) = compute_fanout N"
  by (simp add: compute_fanout_def)

lemma num_buffers_node_no_fanout:
  "fanout v ! n = [] \<Longrightarrow> num_buffers_node v n = Inr 0"
  by (simp add: num_buffers_node_def num_splitters_def)

text \<open>
  C10. After \<^verbatim>\<open>update_fanout\<close>, every element of every \<open>F[n]\<close> is a gate; the primary
  outputs play no part in the index (replacing them by any other list leaves it unchanged),
  so a node that no gate reads, however many outputs it drives, has an empty \<open>F[n]\<close>, and
  its stages, cells and buffer count are 0.
\<close>

theorem outputs_not_recorded:
  assumes wf: "wf_ntk (net v)" and n: "n < size_ntk (net v)"
  shows "(\<forall>m\<in>set (fanout (update_fanout v) ! n). m \<in> set (gates (net v)))
       \<and> fanout (update_fanout (v\<lparr>net := (net v)\<lparr>outputs := os\<rparr>\<rparr>)) = fanout (update_fanout v)
       \<and> ((\<forall>g\<in>set (gates (net v)). n \<notin> set (fanin_nodes (net v) g)) \<longrightarrow>
            fanout (update_fanout v) ! n = []
            \<and> num_splitter_levels (update_fanout v) n = 0
            \<and> num_splitters (update_fanout v) n = 0
            \<and> num_buffers_node (update_fanout v) n = Inr 0)"
proof -
  have d: "distinct (gates (net v))" using wf by (rule wf_ntk_distinct)
  have eq: "fanout (update_fanout v) ! n =
      filter (\<lambda>m. n \<in> set (fanin_nodes (net v) m)) (gates (net v))"
    using d n by (simp add: compute_fanout_nth)
  have a: "\<forall>m\<in>set (fanout (update_fanout v) ! n). m \<in> set (gates (net v))"
    unfolding eq by simp
  have b: "fanout (update_fanout (v\<lparr>net := (net v)\<lparr>outputs := os\<rparr>\<rparr>)) = fanout (update_fanout v)"
    by simp
  have c: "(\<forall>g\<in>set (gates (net v)). n \<notin> set (fanin_nodes (net v) g)) \<longrightarrow>
            fanout (update_fanout v) ! n = []
            \<and> num_splitter_levels (update_fanout v) n = 0
            \<and> num_splitters (update_fanout v) n = 0
            \<and> num_buffers_node (update_fanout v) n = Inr 0"
  proof
    assume "\<forall>g\<in>set (gates (net v)). n \<notin> set (fanin_nodes (net v) g)"
    then have e: "fanout (update_fanout v) ! n = []" unfolding eq by simp
    then show "fanout (update_fanout v) ! n = []
            \<and> num_splitter_levels (update_fanout v) n = 0
            \<and> num_splitters (update_fanout v) n = 0
            \<and> num_buffers_node (update_fanout v) n = Inr 0"
      by (simp add: num_buffers_node_no_fanout num_splitter_levels_def num_splitters_def
          del: fanout_update_fanout)
  qed
  show ?thesis using a b c by blast
qed

theorem outputs_not_recorded_witness:
  "wf_ntk (net sample_view) \<and> 8 < size_ntk (net sample_view)
   \<and> sg 8 False \<in> set (outputs (net sample_view))
   \<and> fanout (update_fanout sample_view) ! 8 = []
   \<and> num_buffers_node (update_fanout sample_view) 8 = Inr 0
   \<and> fanout (update_fanout (sample_view\<lparr>net := (net sample_view)\<lparr>outputs := replicate 7 (sg 8 True)\<rparr>\<rparr>))
       = fanout (update_fanout sample_view)"
proof -
  define V where "V = update_fanout sample_view"
  have wf: "wf_ntk (net sample_view)" by code_simp
  have n: "8 < size_ntk (net sample_view)" by code_simp
  have o: "sg 8 False \<in> set (outputs (net sample_view))" by code_simp
  have h: "\<forall>g\<in>set (gates (net sample_view)). 8 \<notin> set (fanin_nodes (net sample_view) g)"
    by code_simp
  note T = outputs_not_recorded [OF wf n, of "replicate 7 (sg 8 True)", folded V_def]
  have "fanout V ! 8 = [] \<and> num_buffers_node V 8 = Inr 0" using T h by blast
  moreover have "fanout (update_fanout (sample_view\<lparr>net := (net sample_view)\<lparr>outputs := replicate 7 (sg 8 True)\<rparr>\<rparr>))
       = fanout V" using T by blast
  ultimately show ?thesis using wf n o unfolding V_def by blast
qed

section \<open>The assertion of the buffer count\<close>

text \<open>
  An evaluation of the assertion in \<^verbatim>\<open>num_buffers(node)\<close> on the level engine as it is
  modelled above, where the splitter levels of a fan-in are charged to the edge that
  leaves it. In the network \<open>chain_ntk\<close>, gate 4 has the single consumer 5 and no
  splitters, so \<open>level(4) + stages(4) = L(4) = 2\<close>; gate 5 has two consumers, hence one
  splitter level, and \<open>L(5) = 1 + L(4) = 3\<close>, so \<open>level(5) = L(5) - stages(5) = 2\<close>. The
  assertion \<open>level(5) > level(4) + stages(4)\<close> then fails. The comment on \<^verbatim>\<open>level\<close> (the
  level of the node itself, not the highest level of its splitters) reads the table entry
  of a node as including the node's own splitter levels; a depth view that charges them
  to the node itself would give \<open>L(4) = 1\<close>, \<open>L(5) = 3\<close>, and the assertion would hold.
\<close>

lemma num_buffers_assertion_fails:
  "wf_ntk (net chain_view) \<and> ranked (net chain_view) (\<lambda>n. n)
   \<and> 4 \<in> set (gates (net chain_view))
   \<and> 5 \<in> set (fanout (update_fanout chain_view) ! 4)
   \<and> dv_levels (update_fanout chain_view) = [0, 0, 0, 0, 2, 3, 5, 5]
   \<and> level (update_fanout chain_view) 4 + num_splitter_levels (update_fanout chain_view) 4 = 2
   \<and> level (update_fanout chain_view) 5 = 2
   \<and> num_buffers_node (update_fanout chain_view) 4 = Inl Assertion_failed
   \<and> num_buffers (update_fanout chain_view) = Inl Assertion_failed"
  by code_simp

section \<open>What the constructor rejects\<close>

lemma initial_view_simps [simp]:
  "net (initial_view pw N p) = N" "ps (initial_view pw N p) = p"
  by (simp_all add: initial_view_def)

text \<open>
  C8 (as amended). Construction is rejected exactly when the network has no
  \<^verbatim>\<open>foreach_fanout\<close> of its own and either provides \<^verbatim>\<open>depth\<close>, \<^verbatim>\<open>level\<close> or
  \<^verbatim>\<open>update_levels\<close>, or lacks \<^verbatim>\<open>foreach_node\<close> or \<^verbatim>\<open>foreach_fanin\<close>; the rejection is a
  failed \<^verbatim>\<open>static_assert\<close>. The value of \<^verbatim>\<open>max_splitter_levels\<close> is never tested: a
  configuration is rejected iff the same configuration with any other
  \<^verbatim>\<open>max_splitter_levels\<close> is, and where a view is constructed, it is constructed for any
  other \<^verbatim>\<open>max_splitter_levels\<close> too, over the same network and with the same fan-out
  index.
\<close>

theorem ctor_rejects:
  "((\<exists>e. aqfp_view_ctor pw chk tr N p = Inl e) \<longleftrightarrow>
      \<not> has_foreach_fanout tr
      \<and> (has_depth tr \<or> has_level tr \<or> has_update_levels tr
           \<or> \<not> has_foreach_node tr \<or> \<not> has_foreach_fanin tr))
   \<and> (aqfp_view_ctor pw chk tr N p = Inl e \<longrightarrow> e = Static_assert_failed)
   \<and> ((\<exists>e. aqfp_view_ctor pw chk tr N (p\<lparr>max_splitter_levels := s\<rparr>) = Inl e) \<longleftrightarrow>
        (\<exists>e. aqfp_view_ctor pw chk tr N p = Inl e))
   \<and> (aqfp_view_ctor pw chk tr N p = Inr (View v, ws) \<longrightarrow>
        (\<exists>v' ws'. aqfp_view_ctor pw chk tr N (p\<lparr>max_splitter_levels := s\<rparr>) = Inr (View v', ws')
           \<and> net v' = net v \<and> fanout v' = fanout v
           \<and> ps v' = (ps v)\<lparr>max_splitter_levels := s\<rparr>))"
proof -
  have a: "\<And>q. (\<exists>e. aqfp_view_ctor pw chk tr N q = Inl e) \<longleftrightarrow>
      \<not> has_foreach_fanout tr
      \<and> (has_depth tr \<or> has_level tr \<or> has_update_levels tr
           \<or> \<not> has_foreach_node tr \<or> \<not> has_foreach_fanin tr)"
    by (auto simp: aqfp_view_ctor_def)
  have b: "aqfp_view_ctor pw chk tr N p = Inl e \<longrightarrow> e = Static_assert_failed"
    by (auto simp: aqfp_view_ctor_def split: if_splits)
  have c: "aqfp_view_ctor pw chk tr N p = Inr (View v, ws) \<longrightarrow>
        (\<exists>v' ws'. aqfp_view_ctor pw chk tr N (p\<lparr>max_splitter_levels := s\<rparr>) = Inr (View v', ws')
           \<and> net v' = net v \<and> fanout v' = fanout v
           \<and> ps v' = (ps v)\<lparr>max_splitter_levels := s\<rparr>)"
    by (auto simp: aqfp_view_ctor_def split: if_splits)
  show ?thesis using a [of p] a [of "p\<lparr>max_splitter_levels := s\<rparr>"] b c by blast
qed

theorem ctor_rejects_witness:
  "aqfp_view_ctor small_pow False (mig_traits\<lparr>has_depth := True\<rparr>) sample_ntk default_params
     = Inl Static_assert_failed
   \<and> aqfp_view_ctor small_pow True mig_traits sample_ntk (default_params\<lparr>splitter_capacity := 2\<rparr>)
     = Inr (View (update_fanout (initial_view small_pow sample_ntk
                    (default_params\<lparr>splitter_capacity := 2\<rparr>))), [Too_many_fanouts 5 5])
   \<and> (\<exists>v' ws'. aqfp_view_ctor small_pow True mig_traits sample_ntk
          (default_params\<lparr>splitter_capacity := 2, max_splitter_levels := 3\<rparr>) = Inr (View v', ws')
        \<and> net v' = sample_ntk
        \<and> fanout v' = [[], [5, 6, 9], [5, 7], [5, 8], [6, 7, 8, 9], [6, 7, 8, 9, 10], [10], [10], [], [], []])"
proof -
  let ?p = "default_params\<lparr>splitter_capacity := 2\<rparr>"
  let ?v = "update_fanout (initial_view small_pow sample_ntk ?p)"
  have t: "\<not> has_foreach_fanout (mig_traits\<lparr>has_depth := True\<rparr>)
      \<and> has_depth (mig_traits\<lparr>has_depth := True\<rparr>)"
    by (simp add: mig_traits_def)
  note R = ctor_rejects [of small_pow False "mig_traits\<lparr>has_depth := True\<rparr>" sample_ntk
      default_params]
  have "\<exists>e. aqfp_view_ctor small_pow False (mig_traits\<lparr>has_depth := True\<rparr>) sample_ntk
      default_params = Inl e"
    using R t by blast
  then obtain e where e: "aqfp_view_ctor small_pow False (mig_traits\<lparr>has_depth := True\<rparr>)
      sample_ntk default_params = Inl e" ..
  then have "e = Static_assert_failed" using R [of e] by blast
  then have a: "aqfp_view_ctor small_pow False (mig_traits\<lparr>has_depth := True\<rparr>) sample_ntk
      default_params = Inl Static_assert_failed"
    using e by simp
  have d: "check_diagnostics True ?v = [Too_many_fanouts 5 5]" by code_simp
  have b: "aqfp_view_ctor small_pow True mig_traits sample_ntk ?p
      = Inr (View ?v, [Too_many_fanouts 5 5])"
    by (simp add: aqfp_view_ctor_def mig_traits_def d)
  have F: "fanout ?v
      = [[], [5, 6, 9], [5, 7], [5, 8], [6, 7, 8, 9], [6, 7, 8, 9, 10], [10], [10], [], [], []]"
    by code_simp
  have n: "net ?v = sample_ntk" by simp
  have "\<exists>v' ws'. aqfp_view_ctor small_pow True mig_traits sample_ntk
          (?p\<lparr>max_splitter_levels := 3\<rparr>) = Inr (View v', ws')
        \<and> net v' = net ?v \<and> fanout v' = fanout ?v"
    using ctor_rejects [of small_pow True mig_traits sample_ntk ?p _ 3 ?v "[Too_many_fanouts 5 5]"] b
    by blast
  then have c: "\<exists>v' ws'. aqfp_view_ctor small_pow True mig_traits sample_ntk
          (default_params\<lparr>splitter_capacity := 2, max_splitter_levels := 3\<rparr>) = Inr (View v', ws')
        \<and> net v' = sample_ntk
        \<and> fanout v' = [[], [5, 6, 9], [5, 7], [5, 8], [6, 7, 8, 9], [6, 7, 8, 9, 10], [10], [10], [], [], []]"
    unfolding F n by simp
  show ?thesis using a b c by blast
qed

text \<open>
  A configuration that asks for three splitter levels, over a majority network without
  depth interface, is constructed like any other: the view holds the fan-out index of the
  network, and \<^verbatim>\<open>_max_fanout\<close> is 64.
\<close>

theorem ctor_accepts_three_levels_counterexample:
  "max_splitter_levels (default_params\<lparr>max_splitter_levels := 3\<rparr>) = 3
   \<and> aqfp_view_ctor small_pow False mig_traits sample_ntk
         (default_params\<lparr>max_splitter_levels := 3\<rparr>)
       = Inr (View (update_fanout (initial_view small_pow sample_ntk
                      (default_params\<lparr>max_splitter_levels := 3\<rparr>))), [])
   \<and> aqfp_view_ctor small_pow True mig_traits sample_ntk
         (default_params\<lparr>max_splitter_levels := 3\<rparr>)
       = Inr (View (update_fanout (initial_view small_pow sample_ntk
                      (default_params\<lparr>max_splitter_levels := 3\<rparr>))), [])
   \<and> max_fanout (update_fanout (initial_view small_pow sample_ntk
        (default_params\<lparr>max_splitter_levels := 3\<rparr>))) = 64
   \<and> fanout (update_fanout (initial_view small_pow sample_ntk
        (default_params\<lparr>max_splitter_levels := 3\<rparr>)))
       = [[], [5, 6, 9], [5, 7], [5, 8], [6, 7, 8, 9], [6, 7, 8, 9, 10], [10], [10], [], [], []]"
proof -
  let ?v = "update_fanout (initial_view small_pow sample_ntk
        (default_params\<lparr>max_splitter_levels := 3\<rparr>))"
  have F: "fanout ?v
       = [[], [5, 6, 9], [5, 7], [5, 8], [6, 7, 8, 9], [6, 7, 8, 9, 10], [10], [10], [], [], []]"
    by code_simp
  have m: "max_fanout ?v = 64" by code_simp
  have d: "check_diagnostics True ?v = []" by code_simp
  have d': "check_diagnostics False ?v = []" by (simp add: check_diagnostics_def)
  show ?thesis using F m by (simp add: aqfp_view_ctor_def mig_traits_def d d')
qed

section \<open>Event handlers keep membership exact\<close>

lemma length_push_fold [simp]: "length (fold (push_fanout n) fis F) = length F"
  by (induction fis arbitrary: F) (simp_all add: push_fanout_def)

lemma length_erase_fold [simp]: "length (fold (erase_fanout n) fis F) = length F"
  by (induction fis arbitrary: F) (simp_all add: erase_fanout_def)

lemma push_fold_nth:
  "k < length F \<Longrightarrow>
   fold (push_fanout n) fis F ! k = F ! k @ replicate (count_list (map index fis) k) n"
proof (induction fis arbitrary: F)
  case Nil
  then show ?case by simp
next
  case (Cons f fis)
  have "push_fanout n f F ! k = (if index f = k then F ! k @ [n] else F ! k)"
    using Cons.prems by (simp add: push_fanout_def nth_list_update)
  moreover have "k < length (push_fanout n f F)"
    using Cons.prems by (simp add: push_fanout_def)
  ultimately show ?case
    using Cons.IH [of "push_fanout n f F"] by (simp add: replicate_app_Cons_same)
qed

lemma push_fold_set:
  "k < length F \<Longrightarrow>
   set (fold (push_fanout n) fis F ! k)
     = set (F ! k) \<union> (if k \<in> index ` set fis then {n} else {})"
  by (auto simp: push_fold_nth count_list_0_iff)

lemma erase_fold_nth:
  "k < length F \<Longrightarrow>
   fold (erase_fanout n) fis F ! k
     = (if k \<in> index ` set fis then removeAll n (F ! k) else F ! k)"
proof (induction fis arbitrary: F)
  case Nil
  then show ?case by simp
next
  case (Cons f fis)
  have "erase_fanout n f F ! k = (if index f = k then removeAll n (F ! k) else F ! k)"
    using Cons.prems by (simp add: erase_fanout_def nth_list_update)
  moreover have "k < length (erase_fanout n f F)"
    using Cons.prems by (simp add: erase_fanout_def)
  ultimately show ?case
    using Cons.IH [of "erase_fanout n f F"] by auto
qed

lemma fanout_exact_iff:
  "fanout_exact v \<longleftrightarrow>
     length (fanout v) = size_ntk (net v)
     \<and> (\<forall>c m. c < size_ntk (net v) \<longrightarrow> ( m \<in> set (fanout v ! c) \<longleftrightarrow>
           m \<in> set (gates (net v)) \<and> c \<in> set (fanin_nodes (net v) m)))"
  by (auto simp: fanout_exact_def list_all_iff)

lemma wf_ntk_iff:
  "wf_ntk N \<longleftrightarrow>
     distinct (gates N)
     \<and> (\<forall>g\<in>set (gates N). g < size_ntk N \<and> (\<forall>c\<in>set (fanin_nodes N g). c < size_ntk N))"
  by (auto simp: wf_ntk_def list_all_iff fanin_nodes_def)

text \<open>A node is added.\<close>

lemma deliver_added_exact:
  assumes wf: "wf_ntk (net v)" and ex: "fanout_exact v"
    and val: "valid_event (net v) (Node_added fis)" and en: "update_on_add (ps v)"
  shows "fanout_exact (deliver v (Node_added fis))"
proof -
  let ?N = "net v" and ?n = "size_ntk (net v)"
  let ?N' = "mutate (net v) (Node_added fis)"
  let ?F1 = "fanout v @ [[]]"
  let ?v' = "deliver v (Node_added fis)"
  have len: "length (fanout v) = ?n" using ex by (simp add: fanout_exact_iff)
  have F': "fanout ?v' = fold (push_fanout ?n) fis ?F1"
    using en len by (simp add: on_add_def resize_fanout_def Let_def)
  have N': "net ?v' = ?N'" using en by (simp add: on_add_def Let_def)
  have fis: "\<forall>c\<in>index ` set fis. c < ?n" using val by (auto simp: list_all_iff)
  have old: "\<And>m. m \<in> set (gates ?N) \<Longrightarrow> m \<noteq> ?n \<and> fanin_nodes ?N' m = fanin_nodes ?N m"
    using wf by (auto simp: wf_ntk_iff fanin_nodes_def)
  have new: "fanin_nodes ?N' ?n = map index fis" by (simp add: fanin_nodes_def)
  have "\<forall>c m. c < size_ntk ?N' \<longrightarrow> (m \<in> set (fanout ?v' ! c) \<longleftrightarrow>
           m \<in> set (gates ?N') \<and> c \<in> set (fanin_nodes ?N' m))"
  proof (intro allI impI)
    fix c m assume "c < size_ntk ?N'"
    then have c: "c < length ?F1" using len by simp
    have s: "set (fanout ?v' ! c) = set (?F1 ! c) \<union> (if c \<in> index ` set fis then {?n} else {})"
      unfolding F' using c by (rule push_fold_set)
    show "m \<in> set (fanout ?v' ! c) \<longleftrightarrow> m \<in> set (gates ?N') \<and> c \<in> set (fanin_nodes ?N' m)"
    proof (cases "c < ?n")
      case True
      then have "\<forall>m. m \<in> set (fanout v ! c) \<longleftrightarrow>
          m \<in> set (gates ?N) \<and> c \<in> set (fanin_nodes ?N m)"
        using ex by (simp add: fanout_exact_iff)
      moreover have "?F1 ! c = fanout v ! c" using True len by (simp add: nth_append)
      ultimately show ?thesis using s old new by auto
    next
      case False
      then have cn: "c = ?n" using c len by simp
      have "?F1 ! c = []" using cn len by (simp add: nth_append)
      moreover have "c \<notin> index ` set fis" using fis cn by auto
      moreover have "\<And>m. m \<in> set (gates ?N) \<Longrightarrow> c \<notin> set (fanin_nodes ?N m)"
        using wf cn by (auto simp: wf_ntk_iff)
      ultimately show ?thesis using s old new cn by auto
    qed
  qed
  moreover have "length (fanout ?v') = size_ntk ?N'" unfolding F' using len by simp
  ultimately show ?thesis unfolding fanout_exact_iff N' by blast
qed

lemma mutate_added_wf:
  "wf_ntk N \<Longrightarrow> valid_event N (Node_added fis) \<Longrightarrow> wf_ntk (mutate N (Node_added fis))"
  by (fastforce simp: wf_ntk_iff fanin_nodes_def list_all_iff)

text \<open>A node is modified.\<close>

lemma deliver_modified_exact:
  assumes wf: "wf_ntk (net v)" and ex: "fanout_exact v"
    and val: "valid_event (net v) (Node_modified n fis)" and en: "update_on_modified (ps v)"
  shows "fanout_exact (deliver v (Node_modified n fis))"
proof -
  let ?N = "net v"
  let ?N' = "mutate (net v) (Node_modified n fis)"
  let ?F1 = "fold (erase_fanout n) (fanins ?N n) (fanout v)"
  let ?v' = "deliver v (Node_modified n fis)"
  have len: "length (fanout v) = size_ntk ?N" using ex by (simp add: fanout_exact_iff)
  have F': "fanout ?v' = fold (push_fanout n) fis ?F1"
    using en by (simp add: on_modified_def Let_def)
  have N': "net ?v' = ?N'" using en by (simp add: on_modified_def Let_def)
  have g: "n \<in> set (gates ?N)" using val by simp
  have old: "\<And>m. m \<noteq> n \<Longrightarrow> fanin_nodes ?N' m = fanin_nodes ?N m"
    by (simp add: fanin_nodes_def)
  have new: "fanin_nodes ?N' n = map index fis" by (simp add: fanin_nodes_def)
  have "\<forall>c m. c < size_ntk ?N' \<longrightarrow> (m \<in> set (fanout ?v' ! c) \<longleftrightarrow>
           m \<in> set (gates ?N') \<and> c \<in> set (fanin_nodes ?N' m))"
  proof (intro allI impI)
    fix c m assume "c < size_ntk ?N'"
    then have c: "c < size_ntk ?N" by simp
    have e: "\<And>m. m \<in> set (fanout v ! c) \<longleftrightarrow>
          m \<in> set (gates ?N) \<and> c \<in> set (fanin_nodes ?N m)"
      using ex c by (simp add: fanout_exact_iff)
    have "?F1 ! c = (if c \<in> index ` set (fanins ?N n) then removeAll n (fanout v ! c)
                      else fanout v ! c)"
      using c len by (simp add: erase_fold_nth)
    then have s1: "set (?F1 ! c) = set (fanout v ! c) - {n}"
      using e [of n] by (auto simp: fanin_nodes_def)
    have "set (fanout ?v' ! c) = set (?F1 ! c) \<union> (if c \<in> index ` set fis then {n} else {})"
      unfolding F' using c len by (intro push_fold_set) simp
    then have s: "set (fanout ?v' ! c)
        = (set (fanout v ! c) - {n}) \<union> (if c \<in> index ` set fis then {n} else {})"
      using s1 by simp
    show "m \<in> set (fanout ?v' ! c) \<longleftrightarrow> m \<in> set (gates ?N') \<and> c \<in> set (fanin_nodes ?N' m)"
    proof (cases "m = n")
      case True
      then show ?thesis using s g new by auto
    next
      case False
      then show ?thesis using s e [of m] old [of m] by auto
    qed
  qed
  moreover have "length (fanout ?v') = size_ntk ?N'" unfolding F' using len by simp
  ultimately show ?thesis unfolding fanout_exact_iff N' by blast
qed

lemma mutate_modified_wf:
  "wf_ntk N \<Longrightarrow> valid_event N (Node_modified n fis) \<Longrightarrow>
   wf_ntk (mutate N (Node_modified n fis))"
  by (auto simp: wf_ntk_iff fanin_nodes_def list_all_iff)

text \<open>A node is deleted.\<close>

lemma deliver_deleted_exact:
  assumes wf: "wf_ntk (net v)" and ex: "fanout_exact v"
    and val: "valid_event (net v) (Node_deleted n)" and en: "update_on_delete (ps v)"
  shows "fanout_exact (deliver v (Node_deleted n))"
proof -
  let ?N = "net v"
  let ?N' = "mutate (net v) (Node_deleted n)"
  let ?F1 = "(fanout v)[n := []]"
  let ?v' = "deliver v (Node_deleted n)"
  have len: "length (fanout v) = size_ntk ?N" using ex by (simp add: fanout_exact_iff)
  have F': "fanout ?v' = fold (erase_fanout n) (fanins ?N n) ?F1"
    using en by (simp add: on_delete_def Let_def)
  have N': "net ?v' = ?N'" using en by (simp add: on_delete_def Let_def)
  have g: "n \<in> set (gates ?N)" using val by simp
  have unread: "\<And>m. m \<in> set (gates ?N) \<Longrightarrow> n \<notin> set (fanin_nodes ?N m)"
    using val by (simp add: list_all_iff)
  have fn: "\<And>m. fanin_nodes ?N' m = fanin_nodes ?N m" by (simp add: fanin_nodes_def)
  have "\<forall>c m. c < size_ntk ?N' \<longrightarrow> (m \<in> set (fanout ?v' ! c) \<longleftrightarrow>
           m \<in> set (gates ?N') \<and> c \<in> set (fanin_nodes ?N' m))"
  proof (intro allI impI)
    fix c m assume "c < size_ntk ?N'"
    then have c: "c < size_ntk ?N" by simp
    have e: "\<And>m. m \<in> set (fanout v ! c) \<longleftrightarrow>
          m \<in> set (gates ?N) \<and> c \<in> set (fanin_nodes ?N m)"
      using ex c by (simp add: fanout_exact_iff)
    have f1: "?F1 ! c = (if c = n then [] else fanout v ! c)"
      using c len by (simp add: nth_list_update)
    have "fanout ?v' ! c = (if c \<in> index ` set (fanins ?N n) then removeAll n (?F1 ! c)
                             else ?F1 ! c)"
      unfolding F' using c len by (intro erase_fold_nth) simp
    then have s: "set (fanout ?v' ! c) = (if c = n then {} else set (fanout v ! c) - {n})"
      using f1 e [of n] by (auto simp: fanin_nodes_def)
    show "m \<in> set (fanout ?v' ! c) \<longleftrightarrow> m \<in> set (gates ?N') \<and> c \<in> set (fanin_nodes ?N' m)"
    proof (cases "c = n")
      case True
      then show ?thesis using s unread fn by auto
    next
      case False
      then show ?thesis using s e [of m] fn by auto
    qed
  qed
  moreover have "length (fanout ?v') = size_ntk ?N'" unfolding F' using len by simp
  ultimately show ?thesis unfolding fanout_exact_iff N' by blast
qed

lemma mutate_deleted_wf:
  "wf_ntk N \<Longrightarrow> valid_event N (Node_deleted n) \<Longrightarrow> wf_ntk (mutate N (Node_deleted n))"
  by (auto simp: wf_ntk_iff fanin_nodes_def distinct_removeAll)

lemma net_deliver: "hook_enabled (ps v) e \<Longrightarrow> net (deliver v e) = mutate (net v) e"
  by (cases e) (simp_all add: on_add_def on_modified_def on_delete_def Let_def)

lemma ps_deliver [simp]: "ps (deliver v e) = ps v"
  by (cases e) (simp_all add: on_add_def on_modified_def on_delete_def Let_def)

lemma deliver_exact:
  assumes "wf_ntk (net v)" and "fanout_exact v"
    and "valid_event (net v) e" and "hook_enabled (ps v) e"
  shows "fanout_exact (deliver v e) \<and> wf_ntk (net (deliver v e))"
proof (cases e)
  case (Node_added fis)
  then show ?thesis
    using assms deliver_added_exact [of v fis] mutate_added_wf [of "net v" fis] net_deliver [of v e]
    by simp
next
  case (Node_modified n fis)
  then show ?thesis
    using assms deliver_modified_exact [of v n fis] mutate_modified_wf [of "net v" n fis]
      net_deliver [of v e]
    by simp
next
  case (Node_deleted n)
  then show ?thesis
    using assms deliver_deleted_exact [of v n] mutate_deleted_wf [of "net v" n]
      net_deliver [of v e]
    by simp
qed

lemma fanout_unique_iff:
  "fanout_unique v \<longleftrightarrow> (\<forall>c. c < length (fanout v) \<longrightarrow> distinct (fanout v ! c))"
  by (auto simp: fanout_unique_def list_all_length)

lemma push_fold_distinct:
  assumes k: "k < length F" and d: "distinct (F ! k)" and n: "n \<notin> set (F ! k)"
    and p: "distinct (map index fis)"
  shows "distinct (fold (push_fanout n) fis F ! k)"
proof -
  have "count_list (map index fis) k \<le> 1"
    using p by (simp add: count_list_distinct)
  then have "count_list (map index fis) k = 0 \<or> count_list (map index fis) k = 1"
    by arith
  then show ?thesis using d n by (auto simp: push_fold_nth [OF k])
qed

lemma deliver_unique:
  assumes wf: "wf_ntk (net v)" and ex: "fanout_exact v" and un: "fanout_unique v"
    and val: "valid_event (net v) e" and en: "hook_enabled (ps v) e"
    and ports: "distinct_ports e"
  shows "fanout_unique (deliver v e)"
proof (cases e)
  case (Node_added fis)
  let ?n = "size_ntk (net v)"
  let ?F1 = "fanout v @ [[]]"
  have len: "length (fanout v) = ?n" using ex by (simp add: fanout_exact_iff)
  have F': "fanout (deliver v e) = fold (push_fanout ?n) fis ?F1"
    using en len Node_added by (simp add: on_add_def resize_fanout_def Let_def)
  have "\<forall>c. c < length ?F1 \<longrightarrow> distinct (fold (push_fanout ?n) fis ?F1 ! c)"
  proof (intro allI impI)
    fix c assume c: "c < length ?F1"
    have d: "distinct (?F1 ! c)"
      using un c by (cases "c < length (fanout v)") (auto simp: fanout_unique_iff nth_append)
    have "?n \<notin> set (?F1 ! c)"
    proof (cases "c < ?n")
      case True
      then have "\<forall>m\<in>set (fanout v ! c). m \<in> set (gates (net v))"
        using ex by (simp add: fanout_exact_iff)
      then have "?n \<notin> set (fanout v ! c)" using wf by (auto simp: wf_ntk_iff)
      then show ?thesis using True len by (simp add: nth_append)
    next
      case False
      then show ?thesis using c len by (simp add: nth_append)
    qed
    then show "distinct (fold (push_fanout ?n) fis ?F1 ! c)"
      using c d ports Node_added by (intro push_fold_distinct) simp_all
  qed
  then show ?thesis unfolding fanout_unique_iff F' by simp
next
  case (Node_modified n fis)
  let ?F1 = "fold (erase_fanout n) (fanins (net v) n) (fanout v)"
  have len: "length (fanout v) = size_ntk (net v)" using ex by (simp add: fanout_exact_iff)
  have F': "fanout (deliver v e) = fold (push_fanout n) fis ?F1"
    using en Node_modified by (simp add: on_modified_def Let_def)
  have g: "n \<in> set (gates (net v))" using val Node_modified by simp
  have "\<forall>c. c < length ?F1 \<longrightarrow> distinct (fold (push_fanout n) fis ?F1 ! c)"
  proof (intro allI impI)
    fix c assume "c < length ?F1"
    then have c: "c < length (fanout v)" by simp
    have e1: "n \<in> set (fanout v ! c) \<longleftrightarrow> c \<in> set (fanin_nodes (net v) n)"
      using ex c len g by (simp add: fanout_exact_iff)
    have f1: "?F1 ! c = (if c \<in> index ` set (fanins (net v) n) then removeAll n (fanout v ! c)
                      else fanout v ! c)"
      using c by (simp add: erase_fold_nth)
    have d: "distinct (?F1 ! c)"
      using un c f1 by (auto simp: fanout_unique_iff distinct_removeAll)
    have "n \<notin> set (?F1 ! c)" using f1 e1 by (auto simp: fanin_nodes_def)
    then show "distinct (fold (push_fanout n) fis ?F1 ! c)"
      using c d ports Node_modified by (intro push_fold_distinct) simp_all
  qed
  then show ?thesis unfolding fanout_unique_iff F' by simp
next
  case (Node_deleted n)
  let ?F1 = "(fanout v)[n := []]"
  have F': "fanout (deliver v e) = fold (erase_fanout n) (fanins (net v) n) ?F1"
    using en Node_deleted by (simp add: on_delete_def Let_def)
  have "\<forall>c. c < length ?F1 \<longrightarrow> distinct (fold (erase_fanout n) (fanins (net v) n) ?F1 ! c)"
  proof (intro allI impI)
    fix c assume c: "c < length ?F1"
    have "distinct (?F1 ! c)"
      using un c by (cases "c = n") (auto simp: fanout_unique_iff)
    then show "distinct (fold (erase_fanout n) (fanins (net v) n) ?F1 ! c)"
      using c by (simp add: erase_fold_nth distinct_removeAll)
  qed
  then show ?thesis unfolding fanout_unique_iff F' by simp
qed

text \<open>Sequences of events: the index is exact after every event of a valid run.\<close>

lemma hooks_keep_exact:
  assumes "wf_ntk (net v)" and "fanout_exact v" and "valid_run v es"
  shows "fanout_exact (run v es) \<and> wf_ntk (net (run v es))"
  using assms
proof (induction es arbitrary: v)
  case Nil
  then show ?case by simp
next
  case (Cons e es)
  then show ?case using deliver_exact [of v e] by simp
qed

lemma hooks_keep_unique:
  assumes "wf_ntk (net v)" and "fanout_exact v" and "fanout_unique v"
    and "valid_run v es" and "list_all distinct_ports es"
  shows "fanout_unique (run v es)"
  using assms
proof (induction es arbitrary: v)
  case Nil
  then show ?case by simp
next
  case (Cons e es)
  then show ?case using deliver_exact [of v e] deliver_unique [of v e] by simp
qed

lemma valid_run_take: "valid_run v es \<Longrightarrow> valid_run v (take k es)"
proof (induction es arbitrary: v k)
  case Nil
  then show ?case by simp
next
  case (Cons e es)
  then show ?case by (cases k) simp_all
qed

lemma hooks_keep_exact_after_each_event:
  assumes "wf_ntk (net v)" and "fanout_exact v" and "valid_run v es"
  shows "fanout_exact (run v (take k es))"
  using assms hooks_keep_exact [of v "take k es"] valid_run_take [of v es k] by simp

subsection \<open>A gate that reads a node on two ports\<close>

text \<open>
  C1. The handlers keep \<open>F\<close> exact as far as membership goes (lemmas
  \<open>hooks_keep_exact_after_each_event\<close> and \<open>hooks_keep_unique\<close>: a consumer occurs once
  when the fan-ins of every added or modified gate are distinct nodes). A consumer that
  uses \<open>c\<close> on more than one port is appended once per port, since \<^verbatim>\<open>on_add\<close> (and
  \<^verbatim>\<open>on_modified\<close>) call \<^verbatim>\<open>push_back\<close> without the \<^verbatim>\<open>std::find\<close> test of
  \<^verbatim>\<open>compute_fanout\<close>: adding a gate with fan-ins 1, 1, 2 to a consistent view leaves gate 3
  twice in \<open>F[1]\<close>, where a full recomputation records it once.
\<close>

theorem on_add_duplicates:
  "wf_ntk (net two_input_view) \<and> fanout_exact two_input_view \<and> fanout_unique two_input_view
   \<and> valid_event (net two_input_view) (Node_added [sg 1 False, sg 1 True, sg 2 False])
   \<and> fanout (deliver two_input_view (Node_added [sg 1 False, sg 1 True, sg 2 False]))
       = [[], [3, 3], [3], []]
   \<and> count_list (fanout (deliver two_input_view
         (Node_added [sg 1 False, sg 1 True, sg 2 False])) ! 1) 3 = 2
   \<and> compute_fanout (net (deliver two_input_view
         (Node_added [sg 1 False, sg 1 True, sg 2 False]))) = [[], [3], [3], []]"
  by code_simp

section \<open>Substitution without cascade\<close>

lemma net_deliver_mutate [simp]: "net (deliver v e) = mutate (net v) e"
  by (cases e) (simp_all add: on_add_def on_modified_def on_delete_def Let_def)

lemma length_deliver_modified [simp]:
  "length (fanout (deliver v (Node_modified n fis))) = length (fanout v)"
  by (simp add: on_modified_def Let_def)

lemma deliver_modified_other:
  assumes "c < length (fanout v)" and "m \<noteq> n"
  shows "m \<in> set (fanout (deliver v (Node_modified n fis)) ! c) \<longleftrightarrow> m \<in> set (fanout v ! c)"
proof (cases "update_on_modified (ps v)")
  case False
  then show ?thesis by (simp add: Let_def)
next
  case True
  let ?F1 = "fold (erase_fanout n) (fanins (net v) n) (fanout v)"
  have F': "fanout (deliver v (Node_modified n fis)) = fold (push_fanout n) fis ?F1"
    using True by (simp add: on_modified_def Let_def)
  have "m \<in> set (?F1 ! c) \<longleftrightarrow> m \<in> set (fanout v ! c)"
    using assms by (simp add: erase_fold_nth)
  moreover have "set (fold (push_fanout n) fis ?F1 ! c)
      = set (?F1 ! c) \<union> (if c \<in> index ` set fis then {n} else {})"
    using assms by (intro push_fold_set) simp
  ultimately show ?thesis unfolding F' using assms by auto
qed

declare deliver.simps [simp del]

lemma rewire_index: "index new \<noteq> old \<Longrightarrow> index (rewire old new c) \<noteq> old"
  by (simp add: rewire_def)

lemma rewire_id: "index c \<noteq> old \<Longrightarrow> rewire old new c = c"
  by (simp add: rewire_def)

lemma map_rewire_id: "old \<notin> index ` set fis \<Longrightarrow> map (rewire old new) fis = fis"
  by (induction fis) (simp_all add: rewire_id)

lemma map_rewire_unread: "index new \<noteq> old \<Longrightarrow> old \<notin> index ` set (map (rewire old new) fis)"
  by (auto simp: rewire_def)

text \<open>The stack only grows while the consumers are processed.\<close>

lemma substitute_parent_stack:
  "snd (substitute_parent red old new n st) = snd st
   \<or> (\<exists>repl. snd (substitute_parent red old new n st) = repl # snd st)"
  by (auto simp: substitute_parent_def split: prod.splits option.splits)

lemma fold_substitute_parent_stack:
  "length (snd st) \<le> length (snd (fold (substitute_parent red old new) parents st))"
proof (induction parents arbitrary: st)
  case Nil
  show ?case by simp
next
  case (Cons n parents)
  have "length (snd st) \<le> length (snd (substitute_parent red old new n st))"
    using substitute_parent_stack [of red old new n st] by auto
  also have "\<dots> \<le> length (snd (fold (substitute_parent red old new) parents
      (substitute_parent red old new n st)))"
    by (rule Cons.IH)
  finally show ?case by simp
qed

text \<open>Where a modified gate can be found in the index afterwards.\<close>

lemma deliver_modified_self:
  assumes c: "c < length (fanout v)"
    and m: "n \<in> set (fanout (deliver v (Node_modified n fis)) ! c)"
  shows "c \<in> index ` set fis
       \<or> (n \<in> set (fanout v ! c)
           \<and> (update_on_modified (ps v) \<longrightarrow> c \<notin> index ` set (fanins (net v) n)))"
proof (cases "update_on_modified (ps v)")
  case False
  then show ?thesis using m by (simp add: deliver.simps Let_def)
next
  case True
  let ?F1 = "fold (erase_fanout n) (fanins (net v) n) (fanout v)"
  have F': "fanout (deliver v (Node_modified n fis)) = fold (push_fanout n) fis ?F1"
    using True by (simp add: deliver.simps on_modified_def Let_def)
  have e: "?F1 ! c = (if c \<in> index ` set (fanins (net v) n) then removeAll n (fanout v ! c)
                      else fanout v ! c)"
    using c by (rule erase_fold_nth)
  have "set (fold (push_fanout n) fis ?F1 ! c)
      = set (?F1 ! c) \<union> (if c \<in> index ` set fis then {n} else {})"
    using c by (intro push_fold_set) simp
  then show ?thesis using m True unfolding F' e by (auto split: if_splits)
qed

text \<open>
  The loop over the consumers when it leaves the stack as it found it: every consumer
  that read \<open>old\<close> is rewired, and \<open>old\<close> stays out of the vectors of the nodes it does
  not read.
\<close>

lemma substitute_parents:
  assumes idx: "index new \<noteq> old"
    and inv: "\<And>c. c < length (fanout v) \<Longrightarrow> c \<noteq> old \<Longrightarrow> old \<in> set (fanout v ! c) \<Longrightarrow>
        c \<in> set (fanin_nodes (net v) old)"
  shows "snd (fold (substitute_parent red old new) parents (v, stack)) = stack \<Longrightarrow>
     size_ntk (net (fst (fold (substitute_parent red old new) parents (v, stack)))) = size_ntk (net v)
     \<and> gates (net (fst (fold (substitute_parent red old new) parents (v, stack)))) = gates (net v)
     \<and> outputs (net (fst (fold (substitute_parent red old new) parents (v, stack)))) = outputs (net v)
     \<and> ps (fst (fold (substitute_parent red old new) parents (v, stack))) = ps v
     \<and> length (fanout (fst (fold (substitute_parent red old new) parents (v, stack)))) = length (fanout v)
     \<and> (\<forall>g. fanins (net (fst (fold (substitute_parent red old new) parents (v, stack)))) g
            = (if g \<in> set parents then map (rewire old new) (fanins (net v) g)
               else fanins (net v) g))
     \<and> (\<forall>c. c < length (fanout v) \<longrightarrow> c \<noteq> old \<longrightarrow>
            old \<in> set (fanout (fst (fold (substitute_parent red old new) parents (v, stack))) ! c) \<longrightarrow>
            c \<in> set (fanin_nodes (net (fst (fold (substitute_parent red old new) parents (v, stack)))) old))"
proof (induction parents rule: rev_induct)
  case Nil
  then show ?case using inv by simp
next
  case (snoc n parents)
  let ?st = "fold (substitute_parent red old new) parents (v, stack)"
  let ?w = "fst ?st"
  have step: "fold (substitute_parent red old new) (parents @ [n]) (v, stack)
      = substitute_parent red old new n ?st" by simp
  have fin: "snd (substitute_parent red old new n ?st) = stack"
    using snoc.prems by simp
  have grow: "length stack \<le> length (snd ?st)"
    using fold_substitute_parent_stack [of "(v, stack)" red old new parents] by simp
  have keep: "snd (substitute_parent red old new n ?st) = snd ?st"
  proof (rule disjE [OF substitute_parent_stack [of red old new n ?st]])
    assume "snd (substitute_parent red old new n ?st) = snd ?st"
    then show ?thesis .
  next
    assume "\<exists>repl. snd (substitute_parent red old new n ?st) = repl # snd ?st"
    then obtain repl where "snd (substitute_parent red old new n ?st) = repl # snd ?st" ..
    then have "stack = repl # snd ?st" using fin by simp
    then have "length stack = length (repl # snd ?st)" by (rule arg_cong)
    then have "length stack = Suc (length (snd ?st))" by (simp only: length_Cons)
    then show ?thesis using grow by simp
  qed
  then have quiet: "snd ?st = stack" using fin by simp
  have IH: "size_ntk (net ?w) = size_ntk (net v)"
      "gates (net ?w) = gates (net v)" "outputs (net ?w) = outputs (net v)" "ps ?w = ps v"
      "length (fanout ?w) = length (fanout v)"
      "\<And>g. fanins (net ?w) g = (if g \<in> set parents then map (rewire old new) (fanins (net v) g)
               else fanins (net v) g)"
      "\<And>c. c < length (fanout v) \<Longrightarrow> c \<noteq> old \<Longrightarrow> old \<in> set (fanout ?w ! c) \<Longrightarrow>
            c \<in> set (fanin_nodes (net ?w) old)"
    using snoc.IH [OF quiet] by simp_all
  show ?case
  proof (cases "old \<in> set (fanin_nodes (net ?w) n)")
    case False
    then have same: "substitute_parent red old new n ?st = ?st"
      by (simp add: substitute_parent_def replace_in_node_def)
    have "map (rewire old new) (fanins (net ?w) n) = fanins (net ?w) n"
      using False by (simp add: map_rewire_id fanin_nodes_def)
    moreover have "map (rewire old new) (map (rewire old new) (fanins (net v) n))
        = map (rewire old new) (fanins (net v) n)"
      using idx by (intro map_rewire_id map_rewire_unread)
    ultimately have fn: "fanins (net ?w) n = map (rewire old new) (fanins (net v) n)"
      using IH(6) [of n] by (simp split: if_splits)
    have w4: "\<And>g. fanins (net ?w) g
        = (if g \<in> set (parents @ [n]) then map (rewire old new) (fanins (net v) g)
           else fanins (net v) g)"
    proof -
      fix g
      show "fanins (net ?w) g
        = (if g \<in> set (parents @ [n]) then map (rewire old new) (fanins (net v) g)
           else fanins (net v) g)"
      proof (cases "g = n")
        case True
        then show ?thesis using fn by simp
      next
        case False
        then show ?thesis using IH(6) [of g] by simp
      qed
    qed
    show ?thesis unfolding step same using IH(1-5) IH(7) w4 by blast
  next
    case True
    then have "n \<notin> set parents"
      using IH(6) [of n] map_rewire_unread [OF idx, of "fanins (net v) n"]
      by (auto simp: fanin_nodes_def)
    then have fn: "fanins (net ?w) n = fanins (net v) n" using IH(6) [of n] by simp
    let ?fis = "map (rewire old new) (fanins (net ?w) n)"
    let ?w' = "deliver ?w (Node_modified n ?fis)"
    have red_n: "red (net ?w) n ?fis = None"
    proof (cases "red (net ?w) n ?fis")
      case None
      then show ?thesis .
    next
      case (Some s)
      then have "snd (substitute_parent red old new n ?st) = (n, s) # snd ?st"
        using True by (simp add: substitute_parent_def replace_in_node_def)
      then show ?thesis using keep by simp
    qed
    have st': "substitute_parent red old new n ?st = (?w', snd ?st)"
      using True red_n by (simp add: substitute_parent_def replace_in_node_def)
    have w1: "size_ntk (net ?w') = size_ntk (net v)" "gates (net ?w') = gates (net v)"
        "outputs (net ?w') = outputs (net v)"
      using IH(1-3) by simp_all
    have w2: "ps ?w' = ps v" using IH(4) by simp
    have w3: "length (fanout ?w') = length (fanout v)"
      using IH(5) by simp
    have w4: "\<And>g. fanins (net ?w') g
        = (if g \<in> set (parents @ [n]) then map (rewire old new) (fanins (net v) g)
           else fanins (net v) g)"
      using IH(6) fn by simp
    have w5: "\<And>c. c < length (fanout v) \<Longrightarrow> c \<noteq> old \<Longrightarrow> old \<in> set (fanout ?w' ! c) \<Longrightarrow>
            c \<in> set (fanin_nodes (net ?w') old)"
    proof -
      fix c assume c: "c < length (fanout v)" and co: "c \<noteq> old"
        and m: "old \<in> set (fanout ?w' ! c)"
      have cw: "c < length (fanout ?w)" using c IH(5) by simp
      show "c \<in> set (fanin_nodes (net ?w') old)"
      proof (cases "n = old")
        case False
        then have "old \<in> set (fanout ?w ! c)"
          using m deliver_modified_other [OF cw, of old n ?fis] by simp
        then have "c \<in> set (fanin_nodes (net ?w) old)" using IH(7) c co by simp
        then show ?thesis using False by (simp add: fanin_nodes_def)
      next
        case n: True
        have new_fi: "fanin_nodes (net ?w') old = map index ?fis"
          using n by (simp add: fanin_nodes_def)
        from deliver_modified_self [OF cw, of n ?fis] m n
        consider "c \<in> index ` set ?fis"
          | "old \<in> set (fanout ?w ! c)" by auto
        then show ?thesis
        proof cases
          case 1
          then show ?thesis unfolding new_fi by (simp add: image_image)
        next
          case 2
          then have "c \<in> set (fanin_nodes (net ?w) old)" using IH(7) c co by simp
          then obtain f where f: "f \<in> set (fanins (net ?w) old)" and fc: "index f = c"
            by (auto simp: fanin_nodes_def)
          have "rewire old new f = f" using fc co by (simp add: rewire_id)
          then have "f \<in> set ?fis" using f n by force
          then show ?thesis unfolding new_fi using fc by force
        qed
      qed
    qed
    show ?thesis unfolding step st' fst_conv using w1 w2 w3 w4 w5 by blast
  qed
qed

lemma substitute_loop_empty [simp]: "substitute_loop red fuel [] v = Some v"
  by (cases fuel) simp_all

lemma take_out_node_net:
  "net (take_out_node v n) = (net v)\<lparr>gates := removeAll n (gates (net v)),
      fanins := (fanins (net v))(n := [])\<rparr>"
  by (simp add: take_out_node_def Let_def)

lemma take_out_node_fanout:
  "update_on_delete (ps v) \<Longrightarrow>
   fanout (take_out_node v n) = fold (erase_fanout n) (fanins (net v) n) ((fanout v)[n := []])"
  by (simp add: take_out_node_def Let_def deliver.simps on_delete_def)

lemma replace_in_outputs_simps [simp]:
  "fanout (replace_in_outputs v old new) = fanout v"
  "ps (replace_in_outputs v old new) = ps v"
  "gates (net (replace_in_outputs v old new)) = gates (net v)"
  "fanins (net (replace_in_outputs v old new)) = fanins (net v)"
  "size_ntk (net (replace_in_outputs v old new)) = size_ntk (net v)"
  "outputs (net (replace_in_outputs v old new)) = map (rewire old new) (outputs (net v))"
  by (simp_all add: replace_in_outputs_def)

text \<open>
  C7 (as amended). Let the fan-out index be exact, \<open>old\<close> a node of the network and \<open>new\<close>
  a signal on another node, and let the call trigger no cascade: no consumer of \<open>old\<close> is
  reported as a follow-up retirement. Then \<^verbatim>\<open>substitute_node\<close> returns after one round of
  its loop; \<open>old\<close> has left the gates; no remaining gate and no primary output references
  \<open>old\<close>; every remaining gate and every output has each former reference to \<open>old\<close>
  replaced by \<open>new\<close>, complemented iff exactly one of the edge and \<open>new\<close> was
  complemented; and, when the deletion handler is enabled, \<open>old\<close> occurs in no vector of
  the fan-out index.
\<close>

theorem substitute_node_no_cascade:
  assumes ex: "fanout_exact v"
    and old_lt: "old < size_ntk (net v)"
    and idx: "index new \<noteq> old"
    and quiet: "no_cascade red v old new"
  shows "\<exists>v'. substitute_node red (Suc fuel) v old new = Some v'
     \<and> gates (net v') = removeAll old (gates (net v))
     \<and> (\<forall>g\<in>set (gates (net v')). old \<notin> set (fanin_nodes (net v') g))
     \<and> (\<forall>s\<in>set (outputs (net v')). index s \<noteq> old)
     \<and> (\<forall>g\<in>set (gates (net v')).
           fanins (net v') g = map (rewire old new) (fanins (net v) g))
     \<and> outputs (net v') = map (rewire old new) (outputs (net v))
     \<and> (update_on_delete (ps v) \<longrightarrow>
           (\<forall>c. c < length (fanout v') \<longrightarrow> old \<notin> set (fanout v' ! c)))"
proof -
  let ?N = "net v"
  let ?parents = "fanout v ! old"
  let ?st = "fold (substitute_parent red old new) ?parents (v, [])"
  let ?w = "fst ?st"
  let ?v2 = "replace_in_outputs ?w old new"
  let ?v3 = "take_out_node ?v2 old"
  have len: "length (fanout v) = size_ntk ?N" using ex by (simp add: fanout_exact_iff)
  have mem: "\<And>c m. c < size_ntk ?N \<Longrightarrow>
      (m \<in> set (fanout v ! c) \<longleftrightarrow> m \<in> set (gates ?N) \<and> c \<in> set (fanin_nodes ?N m))"
    using ex by (simp add: fanout_exact_iff)
  have par: "\<And>n. n \<in> set ?parents \<longleftrightarrow> n \<in> set (gates ?N) \<and> old \<in> set (fanin_nodes ?N n)"
    using mem [OF old_lt] by simp
  have inv: "\<And>c. c < length (fanout v) \<Longrightarrow> c \<noteq> old \<Longrightarrow> old \<in> set (fanout v ! c) \<Longrightarrow>
        c \<in> set (fanin_nodes ?N old)"
    using mem len by simp
  have stack: "snd ?st = []" using quiet by (simp add: no_cascade_def)
  note P = substitute_parents [of new old v red ?parents "[]", OF idx inv stack]
  have w_size: "size_ntk (net ?w) = size_ntk ?N" and w_gates: "gates (net ?w) = gates ?N"
    and w_out: "outputs (net ?w) = outputs ?N" and w_ps: "ps ?w = ps v"
    and w_len: "length (fanout ?w) = length (fanout v)"
    using P by simp_all
  have w_fanins: "\<And>g. fanins (net ?w) g
      = (if g \<in> set ?parents then map (rewire old new) (fanins ?N g) else fanins ?N g)"
    using P by simp
  have w_old: "\<And>c. c < length (fanout v) \<Longrightarrow> c \<noteq> old \<Longrightarrow> old \<in> set (fanout ?w ! c) \<Longrightarrow>
      c \<in> set (fanin_nodes (net ?w) old)"
    using P by simp
  have rew: "\<And>g. g \<in> set (gates ?N) \<Longrightarrow>
      fanins (net ?w) g = map (rewire old new) (fanins ?N g)"
  proof -
    fix g assume g: "g \<in> set (gates ?N)"
    show "fanins (net ?w) g = map (rewire old new) (fanins ?N g)"
    proof (cases "g \<in> set ?parents")
      case True
      then show ?thesis using w_fanins by simp
    next
      case False
      then have "old \<notin> index ` set (fanins ?N g)" using par g by (simp add: fanin_nodes_def)
      then show ?thesis using w_fanins False by (simp add: map_rewire_id)
    qed
  qed
  have run: "substitute_node red (Suc fuel) v old new = Some ?v3"
    by (simp add: substitute_node_def Let_def stack)
  have n3: "net ?v3 = (net ?v2)\<lparr>gates := removeAll old (gates (net ?v2)),
      fanins := (fanins (net ?v2))(old := [])\<rparr>"
    by (rule take_out_node_net)
  have g3: "gates (net ?v3) = removeAll old (gates ?N)"
    unfolding n3 using w_gates by simp
  have f3: "\<And>g. g \<in> set (gates (net ?v3)) \<Longrightarrow>
      fanins (net ?v3) g = map (rewire old new) (fanins ?N g)"
    unfolding n3 using w_gates rew by simp
  have o3: "outputs (net ?v3) = map (rewire old new) (outputs ?N)"
    unfolding n3 using w_out by simp
  have a: "\<forall>g\<in>set (gates (net ?v3)). old \<notin> set (fanin_nodes (net ?v3) g)"
  proof
    fix g assume g: "g \<in> set (gates (net ?v3))"
    have "fanin_nodes (net ?v3) g = map index (map (rewire old new) (fanins ?N g))"
      using f3 [OF g] by (simp only: fanin_nodes_def)
    moreover have "old \<notin> set (map index (map (rewire old new) (fanins ?N g)))"
      using map_rewire_unread [OF idx, of "fanins ?N g"] by (simp add: image_image)
    ultimately show "old \<notin> set (fanin_nodes (net ?v3) g)" by simp
  qed
  have b: "\<forall>s\<in>set (outputs (net ?v3)). index s \<noteq> old"
    unfolding o3 using rewire_index [OF idx] by auto
  have c: "update_on_delete (ps v) \<longrightarrow>
           (\<forall>c. c < length (fanout ?v3) \<longrightarrow> old \<notin> set (fanout ?v3 ! c))"
  proof (intro impI allI)
    fix c assume en: "update_on_delete (ps v)" and c: "c < length (fanout ?v3)"
    have F3: "fanout ?v3
        = fold (erase_fanout old) (fanins (net ?w) old) ((fanout ?w)[old := []])"
      using en w_ps take_out_node_fanout [of ?v2 old] by simp
    have c': "c < length (fanout v)" using c F3 w_len by simp
    have e: "fanout ?v3 ! c =
        (if c \<in> index ` set (fanins (net ?w) old) then removeAll old ((fanout ?w)[old := []] ! c)
         else (fanout ?w)[old := []] ! c)"
      unfolding F3 using c' w_len by (intro erase_fold_nth) simp
    show "old \<notin> set (fanout ?v3 ! c)"
    proof (cases "c \<in> index ` set (fanins (net ?w) old)")
      case True
      then show ?thesis using e by simp
    next
      case False
      have "old \<notin> set ((fanout ?w)[old := []] ! c)"
      proof (cases "c = old")
        case True
        then show ?thesis using c' w_len by simp
      next
        case ne: False
        have "old \<notin> set (fanout ?w ! c)"
          using w_old [OF c' ne] False by (auto simp: fanin_nodes_def)
        then show ?thesis using ne by simp
      qed
      then show ?thesis using e False by simp
    qed
  qed
  show ?thesis using run g3 a b f3 o3 c by blast
qed

theorem substitute_node_no_cascade_witness:
  "fanout_exact chain_out_view \<and> 4 < size_ntk (net chain_out_view)
   \<and> no_cascade majority_collapse chain_out_view 4 (sg 3 True)
   \<and> update_on_delete (ps chain_out_view)
   \<and> (\<exists>v'. substitute_node majority_collapse (Suc 0) chain_out_view 4 (sg 3 True) = Some v'
         \<and> gates (net v') = [5, 6, 7]
         \<and> fanins (net v') 5 = [sg 1 False, sg 2 True, sg 3 True]
         \<and> outputs (net v') = [sg 3 False, sg 6 False, sg 7 False]
         \<and> 4 \<notin> set (fanout v' ! 1) \<and> 4 \<notin> set (fanout v' ! 2) \<and> 4 \<notin> set (fanout v' ! 3))"
proof -
  have ex: "fanout_exact chain_out_view" by code_simp
  have old_lt: "4 < size_ntk (net chain_out_view)" by code_simp
  have idx: "index (sg 3 True) \<noteq> 4" by code_simp
  have quiet: "no_cascade majority_collapse chain_out_view 4 (sg 3 True)" by code_simp
  have en: "update_on_delete (ps chain_out_view)" by code_simp
  have g: "removeAll 4 (gates (net chain_out_view)) = [5, 6, 7]" by code_simp
  have f: "map (rewire 4 (sg 3 True)) (fanins (net chain_out_view) 5)
      = [sg 1 False, sg 2 True, sg 3 True]" by code_simp
  have o: "map (rewire 4 (sg 3 True)) (outputs (net chain_out_view))
      = [sg 3 False, sg 6 False, sg 7 False]" by code_simp
  obtain v' where
    r: "substitute_node majority_collapse (Suc 0) chain_out_view 4 (sg 3 True) = Some v'"
    and g': "gates (net v') = removeAll 4 (gates (net chain_out_view))"
    and f': "\<forall>g\<in>set (gates (net v')).
           fanins (net v') g = map (rewire 4 (sg 3 True)) (fanins (net chain_out_view) g)"
    and o': "outputs (net v') = map (rewire 4 (sg 3 True)) (outputs (net chain_out_view))"
    and F': "update_on_delete (ps chain_out_view) \<longrightarrow>
           (\<forall>c. c < length (fanout v') \<longrightarrow> 4 \<notin> set (fanout v' ! c))"
    using substitute_node_no_cascade [OF ex old_lt idx quiet, of 0] by blast
  have l': "length (fanout v') = 8"
  proof -
    have "map_option (\<lambda>w. length (fanout w))
        (substitute_node majority_collapse (Suc 0) chain_out_view 4 (sg 3 True)) = Some 8"
      by code_simp
    then show ?thesis using r by simp
  qed
  have "gates (net v') = [5, 6, 7]" using g' g by simp
  moreover from this have "fanins (net v') 5 = [sg 1 False, sg 2 True, sg 3 True]"
    using f' f by simp
  moreover have "outputs (net v') = [sg 3 False, sg 6 False, sg 7 False]" using o' o by simp
  moreover have "4 \<notin> set (fanout v' ! 1) \<and> 4 \<notin> set (fanout v' ! 2) \<and> 4 \<notin> set (fanout v' ! 3)"
    using F' en l' by simp
  ultimately show ?thesis using ex old_lt quiet en r by blast
qed

text \<open>
  Three calls after which the claim does not hold. With the deletion handler disabled
  the substitution rewires the network, but gate 4 stays in the vectors of its former
  fan-ins 1, 2 and 3. On the view whose index does not know the consumer 8 of gate 4,
  gate 8 is not rewired and still reads node 4. And a replacement signal on \<open>old\<close> itself
  leaves gate 5 and the first output on node 4.
\<close>

theorem substitute_node_stale_counterexample:
  "fanout_exact chain_out_view_no_delete
   \<and> map_option fanout
        (substitute_node no_collapse (Suc 0) chain_out_view_no_delete 4 (sg 3 True))
      = Some [[], [4, 6, 5], [4, 7, 5], [4, 6, 7, 5], [], [6, 7], [], []]
   \<and> map_option (\<lambda>v. gates (net v))
        (substitute_node no_collapse (Suc 0) chain_out_view_no_delete 4 (sg 3 True))
      = Some [5, 6, 7]
   \<and> \<not> fanout_exact chain_out_view_no_add
   \<and> fanout chain_out_view_no_add ! 4 = [5]
   \<and> map_option (\<lambda>v. (gates (net v), fanins (net v) 8))
        (substitute_node no_collapse (Suc 0) chain_out_view_no_add 4 (sg 3 True))
      = Some ([5, 6, 7, 8], [sg 4 False, sg 1 False, sg 2 True])
   \<and> fanout_exact chain_out_view
   \<and> map_option (\<lambda>v. (gates (net v), fanins (net v) 5, outputs (net v)))
        (substitute_node no_collapse (Suc 0) chain_out_view 4 (sg 4 True))
      = Some ([5, 6, 7], [sg 1 False, sg 2 True, sg 4 True],
              [sg 4 False, sg 6 False, sg 7 False])"
  by code_simp

end
